theory Spec2Isabelle
  imports Complex_Main "HOL-Library.AList"
begin

section \<open>JavaScript values and the object heap\<close>

text \<open>
  A JavaScript number is an IEEE double: a finite value is a rational, and the three special
  values are kept apart because every comparison with \<open>NaN\<close> is false.
\<close>

datatype jsnum = Finite rat | NaN | PosInfinity | NegInfinity

text \<open>
  Caller-side values. A function is represented by its source text (what
  \<^verbatim>\<open>Function.prototype.toString\<close> returns); an object is a reference into the heap, so that
  in-place assignment \<^verbatim>\<open>obj[i] = ...\<close> and aliasing are visible.
\<close>

type_synonym addr = nat

datatype jsval =
    VUndefined
  | VNull
  | VBool bool
  | VNum jsnum
  | VStr string
  | VFun string
  | VRef addr

text \<open>
  An object is the list of its enumerable properties in the order \<^verbatim>\<open>for (let i in obj)\<close>
  visits them (an array is the object with keys \<open>''0''\<close>, \<open>''1''\<close>, ...). The heap is the
  list of all allocated objects; the address of an object is its position.
\<close>

type_synonym obj = "(string \<times> jsval) list"
type_synonym heap = "obj list"

fun typeof :: "jsval \<Rightarrow> string" where
  "typeof VUndefined = ''undefined''"
| "typeof VNull = ''object''"
| "typeof (VBool b) = ''boolean''"
| "typeof (VNum n) = ''number''"
| "typeof (VStr s) = ''string''"
| "typeof (VFun s) = ''function''"
| "typeof (VRef a) = ''object''"

text \<open>The operand test of \<^verbatim>\<open>x || y\<close> and of \<^verbatim>\<open>if (x)\<close>.\<close>

fun truthy :: "jsval \<Rightarrow> bool" where
  "truthy VUndefined = False"
| "truthy VNull = False"
| "truthy (VBool b) = b"
| "truthy (VNum (Finite q)) = (q \<noteq> 0)"
| "truthy (VNum NaN) = False"
| "truthy (VNum PosInfinity) = True"
| "truthy (VNum NegInfinity) = True"
| "truthy (VStr s) = (s \<noteq> [])"
| "truthy (VFun s) = True"
| "truthy (VRef a) = True"

definition object_at :: "heap \<Rightarrow> addr \<Rightarrow> obj" where
  "object_at h a = (if a < length h then h ! a else [])"

text \<open>\<^verbatim>\<open>obj[i]\<close>: a missing property reads as \<^verbatim>\<open>undefined\<close>.\<close>

definition get_prop :: "heap \<Rightarrow> addr \<Rightarrow> string \<Rightarrow> jsval" where
  "get_prop h a i = (case map_of (object_at h a) i of None \<Rightarrow> VUndefined | Some v \<Rightarrow> v)"

text \<open>\<^verbatim>\<open>obj[i] = v\<close>: an existing property keeps its place, a new one is added last.\<close>

definition set_prop :: "heap \<Rightarrow> addr \<Rightarrow> string \<Rightarrow> jsval \<Rightarrow> heap" where
  "set_prop h a i v = (if a < length h then h[a := AList.update i v (h ! a)] else h)"

text \<open>The keys \<^verbatim>\<open>for (let i in obj)\<close> enumerates.\<close>

definition keys_of :: "heap \<Rightarrow> addr \<Rightarrow> string list" where
  "keys_of h a = map fst (object_at h a)"

text \<open>An object literal allocates a new object.\<close>

definition alloc :: "heap \<Rightarrow> obj \<Rightarrow> heap \<times> jsval" where
  "alloc h ob = (h @ [ob], VRef (length h))"

text \<open>
  Data received from the worker is a structured clone: a tree without identity. \<open>MBytes\<close> is
  a \<^verbatim>\<open>Uint8Array\<close> with its bytes.
\<close>

datatype msgval =
    MUndefined
  | MNull
  | MBool bool
  | MNum jsnum
  | MStr string
  | MBytes "nat list"
  | MArr "msgval list"
  | MObj "(string \<times> msgval) list"

text \<open>
  What the reader takes from its platform, as parameters of the model: \<^verbatim>\<open>cloneDeep\<close> of the
  lodash library, acting on the heap; \<open>utf8decoder\<close>, the \<^verbatim>\<open>decode\<close> of the \<^verbatim>\<open>TextDecoder\<close>
  the constructor creates (\<open>None\<close> when it throws); \<open>toText\<close>, the text the engine's \<^verbatim>\<open>toString()\<close> gives
  for a number or an object, taken to run no code of the caller; and \<open>toByte\<close>, the byte a
  \<^verbatim>\<open>Uint8Array\<close> stores when a value is assigned to one of its elements.
\<close>

record platform =
  cloneDeep :: "heap \<Rightarrow> jsval \<Rightarrow> heap \<times> jsval"
  utf8decoder :: "msgval \<Rightarrow> msgval option"
  toText :: "heap \<Rightarrow> jsval \<Rightarrow> string"
  toByte :: "msgval \<Rightarrow> nat"

text \<open>
  \<^verbatim>\<open>v.toString()\<close>: it throws on \<^verbatim>\<open>undefined\<close> and \<^verbatim>\<open>null\<close> (\<open>None\<close>), gives a function's
  source and a string itself.
\<close>

fun toString :: "platform \<Rightarrow> heap \<Rightarrow> jsval \<Rightarrow> string option" where
  "toString env h VUndefined = None"
| "toString env h VNull = None"
| "toString env h (VFun src) = Some src"
| "toString env h (VStr s) = Some s"
| "toString env h (VBool b) = Some (if b then ''true'' else ''false'')"
| "toString env h v = Some (toText env h v)"

section \<open>Closure marshalling: \<^verbatim>\<open>TxtReader.getItertorConfigMessage\<close>\<close>

text \<open>Exceptions thrown synchronously by the code.\<close>

datatype exn =
    TypeError
  | RangeError
  | TaskIdMismatch nat nat
  | UnkownMessageType

record IIteratorConfigMessage =
  eachLine :: string
  scope :: jsval
  functionMap :: "string list"

text \<open>
  \<^verbatim>\<open>functionToString(obj, entry)\<close> with the enclosing \<^verbatim>\<open>functionMap\<close> threaded through.
  The first argument is the number of stack frames still available: the recursion of the source
  is bounded only by the engine's call stack, and a cyclic scope graph exhausts it
  (\<open>None\<close>, the engine's \<^verbatim>\<open>RangeError\<close>). \<open>for_in\<close> is the body of the \<^verbatim>\<open>for (let i in obj)\<close>
  loop over the keys still to visit. The three branches of its case distinction are
  \<^verbatim>\<open>typeof obj[i] === 'function'\<close>, \<^verbatim>\<open>typeof obj[i] === 'object'\<close> (a reference or
  \<^verbatim>\<open>null\<close>), and neither.
\<close>

fun functionToString :: "nat \<Rightarrow> heap \<Rightarrow> string list \<Rightarrow> jsval \<Rightarrow> string \<Rightarrow> (heap \<times> string list \<times> jsval) option"
  and for_in :: "nat \<Rightarrow> heap \<Rightarrow> string list \<Rightarrow> addr \<Rightarrow> string \<Rightarrow> string list \<Rightarrow> (heap \<times> string list) option"
where
  "functionToString 0 h fm ob entry = None"
| "functionToString (Suc n) h fm ob entry =
     (case ob of
        VRef a \<Rightarrow>
          (case for_in n h fm a entry (keys_of h a) of
             None \<Rightarrow> None
           | Some (h', fm') \<Rightarrow> Some (h', fm', ob))
      | _ \<Rightarrow> Some (h, fm, ob))"
| "for_in n h fm a path [] = Some (h, fm)"
| "for_in n h fm a path (i # ks) =
     (let pathi = path @ [CHR ''['', CHR 0x22] @ i @ [CHR 0x22, CHR '']''] in
      case get_prop h a i of
        VFun src \<Rightarrow> for_in n (set_prop h a i (VStr src)) (fm @ [pathi]) a path ks
      | VRef b \<Rightarrow>
          (case functionToString n h fm (VRef b) pathi of
             None \<Rightarrow> None
           | Some (h', fm', v) \<Rightarrow> for_in n (set_prop h' a i v) fm' a path ks)
      | VNull \<Rightarrow>
          (case functionToString n h fm VNull pathi of
             None \<Rightarrow> None
           | Some (h', fm', v) \<Rightarrow> for_in n (set_prop h' a i v) fm' a path ks)
      | _ \<Rightarrow> for_in n h fm a path ks)"

text \<open>
  \<^verbatim>\<open>getItertorConfigMessage(config)\<close>. On a \<open>config\<close> that is no object,
  \<^verbatim>\<open>config.eachLine\<close> is \<^verbatim>\<open>undefined\<close> or the read itself throws, so the call throws
  \<^verbatim>\<open>TypeError\<close> either way; so does \<^verbatim>\<open>toString()\<close> on a missing \<open>eachLine\<close>. The fields of
  the result are evaluated in the order they are written. \<^verbatim>\<open>|| {}\<close> allocates an empty object
  when the walk returns a falsy value. A walk that exhausts the stack leaves the clone it was
  converting half-converted; nothing refers to that clone any more, and the model returns the
  heap as it was before the walk.
\<close>

definition getItertorConfigMessage ::
  "nat \<Rightarrow> platform \<Rightarrow> heap \<Rightarrow> jsval \<Rightarrow> (exn + IIteratorConfigMessage) \<times> heap" where
  "getItertorConfigMessage stack env h config =
     (case config of
        VRef c \<Rightarrow>
          (case toString env h (get_prop h c ''eachLine'') of
             None \<Rightarrow> (Inl TypeError, h)
           | Some src \<Rightarrow>
               (case functionToString stack h [] (get_prop h c ''scope'') [] of
                  None \<Rightarrow> (Inl RangeError, h)
                | Some (h', fm, v) \<Rightarrow>
                    (let (h'', sc) = (if truthy v then (h', v) else alloc h' [])
                     in (Inr \<lparr>eachLine = src, scope = sc, functionMap = fm\<rparr>, h''))))
      | _ \<Rightarrow> (Inl TypeError, h))"

section \<open>Messages, tasks and promises\<close>

type_synonym File = string

text \<open>
  The \<open>data\<close> of a request, as the call sites of \<^verbatim>\<open>newTask\<close> build it: a caller's value
  passed through (\<open>DVal VUndefined\<close> when the argument is left out), an \<^verbatim>\<open>Error\<close> object with
  its message, or an object literal.
\<close>

datatype field = FFile File | FVal jsval | FConfig IIteratorConfigMessage

datatype reqdata = DVal jsval | DError string | DObj "(string \<times> field) list"

text \<open>\<^verbatim>\<open>taskId\<close> is unset (\<open>None\<close>) until the task's constructor stamps it.\<close>

record RequestMessage =
  action :: string
  data :: reqdata
  taskId :: "nat option"

definition new_RequestMessage :: "string \<Rightarrow> reqdata \<Rightarrow> RequestMessage" where
  "new_RequestMessage act d =
     \<lparr>action = act, data = (if d \<noteq> DVal VUndefined then d else DVal VNull), taskId = None\<rparr>"

record IResponseMessage =
  resp_taskId :: nat
  resp_success :: bool
  resp_done :: bool
  resp_message :: string
  resp_result :: msgval

record ITaskResponse =
  timeTaken :: int
  message :: string
  result :: msgval

datatype TxtReaderTaskState = Initialized | Queued | Running | Completed

text \<open>
  Observers are opaque to the scheduler: a caller's function is a number, and the three
  observers the reader registers itself are named after the method that registers them.
\<close>

datatype callback =
    UserCallback nat
  | LoadFileThen File
  | GetLines2Then
  | GetLinesThen bool

text \<open>An observer invocation, with the task it belongs to and the argument it receives.\<close>

datatype invocation =
    OnProgress nat callback jsnum
  | OnFulfilled nat callback ITaskResponse
  | OnFailed nat callback string

datatype settlement = Pending | Fulfilled ITaskResponse | Rejected string

text \<open>
  A promise reaction waiting to run: the observer to call and the task whose promise calls it.
  A fulfilment reaction is called with the promise's value, the response object the promise
  holds, so that what one observer does to that object is seen by the next; a rejection reaction
  is called with the reason, a string.
\<close>

datatype job =
    FulfilJob nat callback
  | RejectJob nat callback string

text \<open>A promise: its state and the reactions registered while it is pending.\<close>

record Promise =
  settled :: settlement
  fulfilReactions :: "callback list"
  rejectReactions :: "callback list"

text \<open>
  \<open>promiseObject\<close> is the \<^verbatim>\<open>Promise\<close> the constructor creates. The fields
  \<open>promise\<close>, \<open>resolve\<close> and \<open>reject\<close> say whether the task's field of that name still
  refers to it (respectively to its resolving functions) or is \<^verbatim>\<open>null\<close>.
\<close>

record TxtReaderTask =
  tid :: nat
  requestMessage :: RequestMessage
  state :: TxtReaderTaskState
  onProgress :: "callback option"
  promiseObject :: Promise
  promise :: bool
  resolve :: bool
  reject :: bool
  startTime :: int

definition new_TxtReaderTask :: "nat \<Rightarrow> RequestMessage \<Rightarrow> TxtReaderTask" where
  "new_TxtReaderTask i reqMsg =
     \<lparr>tid = i,
      requestMessage = reqMsg\<lparr>taskId := Some i\<rparr>,
      state = Initialized,
      onProgress = None,
      promiseObject = \<lparr>settled = Pending, fulfilReactions = [], rejectReactions = []\<rparr>,
      promise = True,
      resolve = True,
      reject = True,
      startTime = 0\<rparr>"

section \<open>The reader and its environment\<close>

text \<open>
  The fields of \<^verbatim>\<open>TxtReader\<close> (\<open>loadedFile\<close> is its \<^verbatim>\<open>file\<close>), followed by the part of the environment it acts on.
  \<open>taskList\<close> is the store of task objects: a task is referred to by its position there, so
  \<open>runningTask\<close> and \<open>queuedTaskList\<close> hold positions. \<open>posted\<close> lists the calls of
  \<^verbatim>\<open>worker.postMessage\<close>, \<open>timeouts\<close> the pending zero-delay timers (each closes over its
  task), \<open>jobs\<close> the promise reactions waiting for the end of the current handler, and
  \<open>observed\<close> every observer invocation made so far.
\<close>

record TxtReader =
  taskList :: "TxtReaderTask list"
  runningTask :: "nat option"
  queuedTaskList :: "nat list"
  verboseLogging :: bool
  lineCount :: msgval
  loadedFile :: "File option"
  heap :: heap
  posted :: "RequestMessage list"
  timeouts :: "nat list"
  jobs :: "job list"
  observed :: "invocation list"

definition new_TxtReader :: "heap \<Rightarrow> TxtReader" where
  "new_TxtReader h =
     \<lparr>taskList = [], runningTask = None, queuedTaskList = [], verboseLogging = False,
      lineCount = MNum (Finite 0), loadedFile = None, heap = h, posted = [], timeouts = [],
      jobs = [], observed = []\<rparr>"

definition update_task :: "nat \<Rightarrow> (TxtReaderTask \<Rightarrow> TxtReaderTask) \<Rightarrow> TxtReader \<Rightarrow> TxtReader" where
  "update_task t f w = w\<lparr>taskList := (taskList w)[t := f (taskList w ! t)]\<rparr>"

subsection \<open>\<^verbatim>\<open>TxtReaderTask\<close>\<close>

definition dispose :: "TxtReaderTask \<Rightarrow> TxtReaderTask" where
  "dispose task = task\<lparr>resolve := False, reject := False, promise := False\<rparr>"

definition run :: "int \<Rightarrow> TxtReaderTask \<Rightarrow> TxtReaderTask" where
  "run now task = task\<lparr>state := Running, startTime := now\<rparr>"

text \<open>
  Calling a promise's resolving function: a pending promise settles and its reactions become
  jobs, in the order of registration; a settled promise ignores the call.
\<close>

definition promise_resolve :: "nat \<Rightarrow> ITaskResponse \<Rightarrow> Promise \<Rightarrow> Promise \<times> job list" where
  "promise_resolve t v p =
     (if settled p = Pending
      then (\<lparr>settled = Fulfilled v, fulfilReactions = [], rejectReactions = []\<rparr>,
            map (FulfilJob t) (fulfilReactions p))
      else (p, []))"

definition promise_reject :: "nat \<Rightarrow> string \<Rightarrow> Promise \<Rightarrow> Promise \<times> job list" where
  "promise_reject t reason p =
     (if settled p = Pending
      then (\<lparr>settled = Rejected reason, fulfilReactions = [], rejectReactions = []\<rparr>,
            map (\<lambda>cb. RejectJob t cb reason) (rejectReactions p))
      else (p, []))"

text \<open>
  \<^verbatim>\<open>complete(response)\<close> on the task at position \<open>t\<close>. Calling \<^verbatim>\<open>this.resolve\<close> or
  \<^verbatim>\<open>this.reject\<close> after \<^verbatim>\<open>dispose\<close> has set them to \<^verbatim>\<open>null\<close> throws, with the state already
  changed.
\<close>

definition complete :: "int \<Rightarrow> nat \<Rightarrow> IResponseMessage \<Rightarrow> TxtReader \<Rightarrow> exn option \<times> TxtReader" where
  "complete now t response w =
     (let w1 = update_task t (\<lambda>task. task\<lparr>state := Completed\<rparr>) w;
          task = taskList w1 ! t;
          timeTaken = now - startTime task
      in if resp_success response then
           (if resolve task then
              (let taskResponse = \<lparr>timeTaken = timeTaken, message = resp_message response,
                                   result = resp_result response\<rparr>;
                   (p, js) = promise_resolve t taskResponse (promiseObject task)
               in (None, update_task t dispose
                     (update_task t (\<lambda>task. task\<lparr>promiseObject := p\<rparr>) w1)\<lparr>jobs := jobs w1 @ js\<rparr>))
            else (Some TypeError, w1))
         else
           (if reject task then
              (let (p, js) = promise_reject t (resp_message response) (promiseObject task)
               in (None, update_task t dispose
                     (update_task t (\<lambda>task. task\<lparr>promiseObject := p\<rparr>) w1)\<lparr>jobs := jobs w1 @ js\<rparr>))
            else (Some TypeError, w1)))"

definition updateProgress :: "nat \<Rightarrow> jsnum \<Rightarrow> TxtReader \<Rightarrow> TxtReader" where
  "updateProgress t progress w =
     (case onProgress (taskList w ! t) of
        None \<Rightarrow> w
      | Some cb \<Rightarrow> w\<lparr>observed := observed w @ [OnProgress t cb progress]\<rparr>)"

text \<open>
  \<^verbatim>\<open>then\<close>, \<^verbatim>\<open>catch\<close> and \<^verbatim>\<open>progress\<close> on the task at position \<open>t\<close>; each returns the same
  task. Registering on a promise that is already settled queues the reaction at once. The
  promise derived by \<^verbatim>\<open>then\<close> swallows every rejection in its empty \<^verbatim>\<open>catch\<close>.
\<close>

definition task_then :: "nat \<Rightarrow> callback \<Rightarrow> TxtReader \<Rightarrow> TxtReader" where
  "task_then t onFulFilled w =
     (let task = taskList w ! t in
      if promise task then
        (case settled (promiseObject task) of
           Pending \<Rightarrow>
             update_task t (\<lambda>task. task\<lparr>promiseObject :=
               (promiseObject task)\<lparr>fulfilReactions :=
                  fulfilReactions (promiseObject task) @ [onFulFilled]\<rparr>\<rparr>) w
         | Fulfilled v \<Rightarrow> w\<lparr>jobs := jobs w @ [FulfilJob t onFulFilled]\<rparr>
         | Rejected reason \<Rightarrow> w)
      else w)"

definition task_catch :: "nat \<Rightarrow> callback \<Rightarrow> TxtReader \<Rightarrow> TxtReader" where
  "task_catch t onFailed w =
     (let task = taskList w ! t in
      if promise task then
        (case settled (promiseObject task) of
           Pending \<Rightarrow>
             update_task t (\<lambda>task. task\<lparr>promiseObject :=
               (promiseObject task)\<lparr>rejectReactions :=
                  rejectReactions (promiseObject task) @ [onFailed]\<rparr>\<rparr>) w
         | Fulfilled v \<Rightarrow> w
         | Rejected reason \<Rightarrow> w\<lparr>jobs := jobs w @ [RejectJob t onFailed reason]\<rparr>)
      else w)"

definition task_progress :: "nat \<Rightarrow> callback \<Rightarrow> TxtReader \<Rightarrow> TxtReader" where
  "task_progress t cb w = update_task t (\<lambda>task. task\<lparr>onProgress := Some cb\<rparr>) w"

subsection \<open>\<^verbatim>\<open>TxtReader\<close>: the scheduler\<close>

definition newTaskId :: "TxtReader \<Rightarrow> nat" where
  "newTaskId w =
     (let taskListLength = length (taskList w) in
      if taskListLength = 0 then 1
      else tid (taskList w ! (taskListLength - 1)) + 1)"

fun is_Error :: "reqdata \<Rightarrow> bool" where
  "is_Error (DError m) = True"
| "is_Error _ = False"

fun error_message :: "reqdata \<Rightarrow> string" where
  "error_message (DError m) = m"
| "error_message _ = []"

definition runTask :: "int \<Rightarrow> nat \<Rightarrow> TxtReader \<Rightarrow> TxtReader" where
  "runTask now t w =
     (let w1 = w\<lparr>runningTask := Some t\<rparr>;
          task = taskList w1 ! t;
          w2 = (if \<not> is_Error (data (requestMessage task))
                then w1\<lparr>posted := posted w1 @ [requestMessage task]\<rparr>
                else w1\<lparr>timeouts := timeouts w1 @ [t]\<rparr>)
      in update_task t (run now) w2)"

definition newTask :: "int \<Rightarrow> string \<Rightarrow> reqdata \<Rightarrow> TxtReader \<Rightarrow> nat \<times> TxtReader" where
  "newTask now act d w =
     (let reqMsg = new_RequestMessage act d;
          task = new_TxtReaderTask (newTaskId w) reqMsg;
          t = length (taskList w);
          w1 = w\<lparr>taskList := taskList w @ [task]\<rparr>
      in if runningTask w1 = None then (t, runTask now t w1)
         else (t, update_task t (\<lambda>task. task\<lparr>state := Queued\<rparr>)
                    (w1\<lparr>queuedTaskList := queuedTaskList w1 @ [t]\<rparr>)))"

definition runNextTask :: "int \<Rightarrow> TxtReader \<Rightarrow> TxtReader" where
  "runNextTask now w =
     (case queuedTaskList w of
        [] \<Rightarrow> w
      | t # rest \<Rightarrow> runTask now t (w\<lparr>queuedTaskList := rest\<rparr>))"

definition completeTask :: "int \<Rightarrow> IResponseMessage \<Rightarrow> TxtReader \<Rightarrow> exn option \<times> TxtReader" where
  "completeTask now response w =
     (case runningTask w of
        None \<Rightarrow> (None, w)
      | Some r \<Rightarrow>
          (case complete now r response w of
             (Some e, w') \<Rightarrow> (Some e, w')
           | (None, w') \<Rightarrow> (None, runNextTask now (w'\<lparr>runningTask := None\<rparr>))))"

text \<open>The listener the constructor attaches to the worker's \<^verbatim>\<open>message\<close> event.\<close>

definition in_percent :: "jsnum \<Rightarrow> bool" where
  "in_percent n = (case n of Finite q \<Rightarrow> 0 \<le> q \<and> q \<le> 100 | _ \<Rightarrow> False)"

definition on_message :: "int \<Rightarrow> IResponseMessage \<Rightarrow> TxtReader \<Rightarrow> exn option \<times> TxtReader" where
  "on_message now response w =
     (case runningTask w of
        None \<Rightarrow> (None, w)
      | Some r \<Rightarrow>
          if resp_taskId response \<noteq> tid (taskList w ! r)
          then (Some (TaskIdMismatch (resp_taskId response) (tid (taskList w ! r))), w)
          else if resp_done response then completeTask now response w
          else (case resp_result response of
                  MNum n \<Rightarrow>
                    if in_percent n then (None, updateProgress r n w)
                    else (Some UnkownMessageType, w)
                | _ \<Rightarrow> (Some UnkownMessageType, w)))"

text \<open>The callback \<^verbatim>\<open>runTask\<close> passes to \<^verbatim>\<open>window.setTimeout\<close>, for the oldest pending timer.\<close>

definition on_timeout :: "int \<Rightarrow> TxtReader \<Rightarrow> exn option \<times> TxtReader" where
  "on_timeout now w =
     (case timeouts w of
        [] \<Rightarrow> (None, w)
      | t # rest \<Rightarrow>
          (let task = taskList w ! t;
               response = \<lparr>resp_taskId = tid task, resp_success = False, resp_done = True,
                           resp_message = error_message (data (requestMessage task)),
                           resp_result = MNull\<rparr>
           in completeTask now response (w\<lparr>timeouts := rest\<rparr>)))"

subsection \<open>Promise reactions\<close>

text \<open>
  \<^verbatim>\<open>response.result.lineCount\<close> in the observer \<^verbatim>\<open>loadFile\<close> registers: reading a property
  off \<^verbatim>\<open>null\<close> or \<^verbatim>\<open>undefined\<close> throws (\<open>None\<close>), a missing property is \<^verbatim>\<open>undefined\<close>.
\<close>

fun lineCount_of :: "msgval \<Rightarrow> msgval option" where
  "lineCount_of MNull = None"
| "lineCount_of MUndefined = None"
| "lineCount_of (MObj ps) =
     Some (case map_of ps ''lineCount'' of None \<Rightarrow> MUndefined | Some v \<Rightarrow> v)"
| "lineCount_of v = Some MUndefined"

text \<open>
  The loop of the observer \<^verbatim>\<open>getLines\<close> registers, on a result that is an array:
  \<^verbatim>\<open>response.result[i] = this.utf8decoder.decode(response.result[i])\<close> for each \<open>i\<close> in turn.
  A throw of the decoder ends the loop with the lines before it decoded. On a result that is
  itself a \<^verbatim>\<open>Uint8Array\<close> the elements are numbers, and what is stored is a byte again.
\<close>

fun decode_each :: "(msgval \<Rightarrow> msgval option) \<Rightarrow> msgval list \<Rightarrow> msgval list" where
  "decode_each d [] = []"
| "decode_each d (x # xs) = (case d x of None \<Rightarrow> x # xs | Some y \<Rightarrow> y # decode_each d xs)"

fun decode_bytes :: "platform \<Rightarrow> nat list \<Rightarrow> nat list" where
  "decode_bytes env [] = []"
| "decode_bytes env (b # bs) =
     (case utf8decoder env (MNum (Finite (of_nat b))) of
        None \<Rightarrow> b # bs
      | Some y \<Rightarrow> toByte env y # decode_bytes env bs)"

text \<open>
  What that observer leaves in \<^verbatim>\<open>response.result\<close>. Without \<open>decode\<close> the loop body does
  nothing. On \<^verbatim>\<open>null\<close> and \<^verbatim>\<open>undefined\<close> reading \<^verbatim>\<open>length\<close> throws at once; a number, a
  boolean and an object without a \<open>length\<close> have nothing to loop over; the characters of a
  string cannot be assigned. The response type makes the result an array of lines; an object
  that carries a \<open>length\<close> of its own is no response of the worker, and the model leaves it as
  it is.
\<close>

definition decode_lines :: "platform \<Rightarrow> bool \<Rightarrow> msgval \<Rightarrow> msgval" where
  "decode_lines env dec r =
     (if dec then
        (case r of
           MArr xs \<Rightarrow> MArr (decode_each (utf8decoder env) xs)
         | MBytes bs \<Rightarrow> MBytes (decode_bytes env bs)
         | _ \<Rightarrow> r)
      else r)"

definition set_result :: "msgval \<Rightarrow> TxtReaderTask \<Rightarrow> TxtReaderTask" where
  "set_result r task =
     task\<lparr>promiseObject := (promiseObject task)\<lparr>settled :=
       (case settled (promiseObject task) of
          Fulfilled response \<Rightarrow> Fulfilled (response\<lparr>result := r\<rparr>)
        | s \<Rightarrow> s)\<rparr>\<rparr>"

text \<open>
  Running one reaction. A rejection observer is called with the reason. A fulfilment observer
  is called with the response object its task's promise holds (a fulfilment reaction is queued
  only by a fulfilled promise of a task in the list). A caller's observer is only recorded: it
  is taken not to write to the response. The observer of \<^verbatim>\<open>loadFile\<close> stores the line count
  and the file, unless reading the line count throws: the exception is swallowed by the empty
  \<^verbatim>\<open>catch\<close> of \<^verbatim>\<open>then\<close>. The observer of \<^verbatim>\<open>getLines\<close> decodes the lines of the response
  object in place. The observer of \<^verbatim>\<open>getLines2\<close> has an empty body.
\<close>

definition perform :: "platform \<Rightarrow> job \<Rightarrow> TxtReader \<Rightarrow> TxtReader" where
  "perform env j w =
     (case j of
        RejectJob t cb reason \<Rightarrow> w\<lparr>observed := observed w @ [OnFailed t cb reason]\<rparr>
      | FulfilJob t cb \<Rightarrow>
          (if t < length (taskList w) then
             (case settled (promiseObject (taskList w ! t)) of
                Fulfilled response \<Rightarrow>
                  (let w' = w\<lparr>observed := observed w @ [OnFulfilled t cb response]\<rparr> in
                   case cb of
                     LoadFileThen f \<Rightarrow>
                       (case lineCount_of (result response) of
                          None \<Rightarrow> w'
                        | Some n \<Rightarrow> w'\<lparr>lineCount := n, loadedFile := Some f\<rparr>)
                   | GetLinesThen dec \<Rightarrow>
                       update_task t (set_result (decode_lines env dec (result response))) w'
                   | _ \<Rightarrow> w')
              | _ \<Rightarrow> w)
           else w))"

text \<open>The reactions queued by a handler run when the handler has returned.\<close>

definition run_jobs :: "platform \<Rightarrow> TxtReader \<Rightarrow> TxtReader" where
  "run_jobs env w = fold (perform env) (jobs w) (w\<lparr>jobs := []\<rparr>)"

subsection \<open>\<^verbatim>\<open>TxtReader\<close>: the public action methods\<close>

text \<open>
  Every method returns the position of the task it created, or the exception it threw, and the
  reader it leaves. The depth of the engine's call stack is a parameter, as the platform is.
\<close>

definition no_file_message :: string where
  "no_file_message = ''TxtReader has not loaded a file yet.''"

definition sniffLines :: "int \<Rightarrow> File \<Rightarrow> jsnum \<Rightarrow> bool \<Rightarrow> TxtReader \<Rightarrow> (exn + nat) \<times> TxtReader" where
  "sniffLines now f lineNumber decode w =
     (let (t, w') = newTask now ''sniffLines''
            (DObj [(''file'', FFile f), (''lineNumber'', FVal (VNum lineNumber)),
                   (''decode'', FVal (VBool decode))]) w
      in (Inr t, w'))"

definition loadFile ::
  "nat \<Rightarrow> platform \<Rightarrow> int \<Rightarrow> File \<Rightarrow> jsval \<Rightarrow> TxtReader \<Rightarrow> (exn + nat) \<times> TxtReader" where
  "loadFile stack env now f config w =
     (let w0 = w\<lparr>loadedFile := None, lineCount := MNum (Finite 0)\<rparr> in
      if truthy config then
        (let (h1, c) = cloneDeep env (heap w0) config in
         case getItertorConfigMessage stack env h1 c of
           (Inl e, h2) \<Rightarrow> (Inl e, w0\<lparr>heap := h2\<rparr>)
         | (Inr msg, h2) \<Rightarrow>
             (let (t, w') = newTask now ''loadFile''
                    (DObj [(''file'', FFile f), (''config'', FConfig msg)]) (w0\<lparr>heap := h2\<rparr>)
              in (Inr t, task_then t (LoadFileThen f) w')))
      else
        (let (t, w') = newTask now ''loadFile'' (DObj [(''file'', FFile f)]) w0
         in (Inr t, task_then t (LoadFileThen f) w')))"

definition setChunkSize :: "int \<Rightarrow> jsnum \<Rightarrow> TxtReader \<Rightarrow> (exn + nat) \<times> TxtReader" where
  "setChunkSize now chunkSize w =
     (let (t, w') = newTask now ''setChunkSize'' (DVal (VNum chunkSize)) w in (Inr t, w'))"

definition enableVerbose :: "int \<Rightarrow> TxtReader \<Rightarrow> (exn + nat) \<times> TxtReader" where
  "enableVerbose now w =
     (let (t, w') = newTask now ''enableVerbose'' (DVal VUndefined) (w\<lparr>verboseLogging := True\<rparr>)
      in (Inr t, w'))"

definition getLines2 :: "int \<Rightarrow> jsval \<Rightarrow> bool \<Rightarrow> TxtReader \<Rightarrow> (exn + nat) \<times> TxtReader" where
  "getLines2 now linesRanges decode w =
     (if loadedFile w = None then
        (let (t, w') = newTask now ''getLines2'' (DError no_file_message) w in (Inr t, w'))
      else
        (let (t, w') = newTask now ''getLines2'' (DVal linesRanges) w
         in (Inr t, task_then t GetLines2Then w')))"

definition getLines :: "int \<Rightarrow> jsnum \<Rightarrow> jsnum \<Rightarrow> bool \<Rightarrow> TxtReader \<Rightarrow> (exn + nat) \<times> TxtReader" where
  "getLines now start count decode w =
     (if loadedFile w = None then
        (let (t, w') = newTask now ''getLines'' (DError no_file_message) w in (Inr t, w'))
      else
        (let (t, w') = newTask now ''getLines''
               (DObj [(''start'', FVal (VNum start)), (''count'', FVal (VNum count))]) w
         in (Inr t, task_then t (GetLinesThen decode) w')))"

definition getSporadicLines :: "int \<Rightarrow> jsval \<Rightarrow> bool \<Rightarrow> TxtReader \<Rightarrow> (exn + nat) \<times> TxtReader" where
  "getSporadicLines now linesRanges decode w =
     (let (t, w') = newTask now ''getSporadicLines''
            (DObj [(''linesRanges'', FVal linesRanges), (''decode'', FVal (VBool decode))]) w
      in (Inr t, w'))"

text \<open>An optional number that is left out is sent as \<^verbatim>\<open>null\<close>.\<close>

definition or_null :: "jsnum option \<Rightarrow> jsval" where
  "or_null x = (case x of None \<Rightarrow> VNull | Some n \<Rightarrow> VNum n)"

definition iterateLines ::
  "nat \<Rightarrow> platform \<Rightarrow> int \<Rightarrow> jsval \<Rightarrow> jsnum option \<Rightarrow> jsnum option \<Rightarrow> TxtReader
     \<Rightarrow> (exn + nat) \<times> TxtReader" where
  "iterateLines stack env now config start count w =
     (if loadedFile w = None then
        (let (t, w') = newTask now ''getLines'' (DError no_file_message) w in (Inr t, w'))
      else
        (let (h1, c) = cloneDeep env (heap w) config in
         case getItertorConfigMessage stack env h1 c of
           (Inl e, h2) \<Rightarrow> (Inl e, w\<lparr>heap := h2\<rparr>)
         | (Inr msg, h2) \<Rightarrow>
             (let (t, w') = newTask now ''iterateLines''
                    (DObj [(''config'', FConfig msg), (''start'', FVal (or_null start)),
                           (''count'', FVal (or_null count))]) (w\<lparr>heap := h2\<rparr>)
              in (Inr t, w'))))"

definition iterateSporadicLines ::
  "nat \<Rightarrow> platform \<Rightarrow> int \<Rightarrow> jsval \<Rightarrow> jsval \<Rightarrow> TxtReader \<Rightarrow> (exn + nat) \<times> TxtReader" where
  "iterateSporadicLines stack env now config linesRanges w =
     (let (h1, c) = cloneDeep env (heap w) config in
      case getItertorConfigMessage stack env h1 c of
        (Inl e, h2) \<Rightarrow> (Inl e, w\<lparr>heap := h2\<rparr>)
      | (Inr msg, h2) \<Rightarrow>
          (let (t, w') = newTask now ''iterateSporadicLines''
                 (DObj [(''config'', FConfig msg), (''lines'', FVal linesRanges)]) (w\<lparr>heap := h2\<rparr>)
           in (Inr t, w')))"

section \<open>Runs of the reader\<close>

text \<open>
  What can happen to a reader: a call of a public action method, a message from the worker,
  the oldest zero-delay timer firing, and the caller registering an observer on a task it was
  handed. Each comes with the clock's reading at that moment.
\<close>

datatype call =
    SniffLines File jsnum bool
  | LoadFile File jsval
  | SetChunkSize jsnum
  | EnableVerbose
  | GetLines2 jsval bool
  | GetLines jsnum jsnum bool
  | GetSporadicLines jsval bool
  | IterateLines jsval "jsnum option" "jsnum option"
  | IterateSporadicLines jsval jsval

datatype event =
    Call call
  | Message IResponseMessage
  | Timeout
  | Then nat nat
  | Catch nat nat
  | Progress nat nat

fun invoke :: "nat \<Rightarrow> platform \<Rightarrow> int \<Rightarrow> call \<Rightarrow> TxtReader \<Rightarrow> (exn + nat) \<times> TxtReader" where
  "invoke stack env now (SniffLines f n d) w = sniffLines now f n d w"
| "invoke stack env now (LoadFile f config) w = loadFile stack env now f config w"
| "invoke stack env now (SetChunkSize n) w = setChunkSize now n w"
| "invoke stack env now EnableVerbose w = enableVerbose now w"
| "invoke stack env now (GetLines2 r d) w = getLines2 now r d w"
| "invoke stack env now (GetLines s c d) w = getLines now s c d w"
| "invoke stack env now (GetSporadicLines r d) w = getSporadicLines now r d w"
| "invoke stack env now (IterateLines config s c) w = iterateLines stack env now config s c w"
| "invoke stack env now (IterateSporadicLines config r) w =
     iterateSporadicLines stack env now config r w"

text \<open>
  The handler of one event, without the reactions it queues. An exception ends the handler and
  leaves the reader as it was at the throw. A caller holds only tasks that exist.
\<close>

fun handle :: "nat \<Rightarrow> platform \<Rightarrow> int \<Rightarrow> event \<Rightarrow> TxtReader \<Rightarrow> TxtReader" where
  "handle stack env now (Call c) w = snd (invoke stack env now c w)"
| "handle stack env now (Message response) w = snd (on_message now response w)"
| "handle stack env now Timeout w = snd (on_timeout now w)"
| "handle stack env now (Then t k) w =
     (if t < length (taskList w) then task_then t (UserCallback k) w else w)"
| "handle stack env now (Catch t k) w =
     (if t < length (taskList w) then task_catch t (UserCallback k) w else w)"
| "handle stack env now (Progress t k) w =
     (if t < length (taskList w) then task_progress t (UserCallback k) w else w)"

definition step :: "nat \<Rightarrow> platform \<Rightarrow> int \<times> event \<Rightarrow> TxtReader \<Rightarrow> TxtReader" where
  "step stack env e w = run_jobs env (handle stack env (fst e) (snd e) w)"

fun exec :: "nat \<Rightarrow> platform \<Rightarrow> (int \<times> event) list \<Rightarrow> TxtReader \<Rightarrow> TxtReader" where
  "exec stack env [] w = w"
| "exec stack env (e # es) w = exec stack env es (step stack env e w)"

definition fresh_task :: "TxtReader \<Rightarrow> string \<Rightarrow> reqdata \<Rightarrow> TxtReaderTask" where
  "fresh_task w act d = new_TxtReaderTask (newTaskId w) (new_RequestMessage act d)"

definition outcome_of :: "int \<Rightarrow> IResponseMessage \<Rightarrow> TxtReaderTask \<Rightarrow> settlement" where
  "outcome_of now response task =
     (if resp_success response
      then Fulfilled \<lparr>timeTaken = now - startTime task, message = resp_message response,
                      result = resp_result response\<rparr>
      else Rejected (resp_message response))"

definition reactions_of :: "nat \<Rightarrow> settlement \<Rightarrow> Promise \<Rightarrow> job list" where
  "reactions_of t s p =
     (case s of
        Pending \<Rightarrow> []
      | Fulfilled v \<Rightarrow> map (FulfilJob t) (fulfilReactions p)
      | Rejected reason \<Rightarrow> map (\<lambda>cb. RejectJob t cb reason) (rejectReactions p))"

definition task_inv :: "TxtReader \<Rightarrow> nat \<Rightarrow> bool" where
  "task_inv w i =
     (let k = taskList w ! i in
      tid k = Suc i \<and> taskId (requestMessage k) = Some (Suc i) \<and>
      state k \<noteq> Initialized \<and>
      (state k = Running \<longleftrightarrow> runningTask w = Some i) \<and>
      (state k = Queued \<longleftrightarrow> i \<in> set (queuedTaskList w)) \<and>
      (state k = Completed \<longleftrightarrow> settled (promiseObject k) \<noteq> Pending) \<and>
      (promise k \<longleftrightarrow> state k \<noteq> Completed) \<and>
      (resolve k \<longleftrightarrow> state k \<noteq> Completed) \<and>
      (reject k \<longleftrightarrow> state k \<noteq> Completed) \<and>
      (requestMessage k \<in> set (posted w) \<longleftrightarrow>
         (state k = Running \<or> state k = Completed) \<and> \<not> is_Error (data (requestMessage k))) \<and>
      (i \<in> set (timeouts w) \<longrightarrow>
         is_Error (data (requestMessage k)) \<and> (state k = Running \<or> state k = Completed)))"

definition sched_inv :: "TxtReader \<Rightarrow> bool" where
  "sched_inv w \<longleftrightarrow>
     (\<forall>i<length (taskList w). task_inv w i) \<and>
     distinct (queuedTaskList w) \<and>
     (\<forall>t\<in>set (queuedTaskList w). t < length (taskList w)) \<and>
     (\<forall>r. runningTask w = Some r \<longrightarrow> r < length (taskList w)) \<and>
     (\<forall>m\<in>set (posted w). \<exists>i<length (taskList w). m = requestMessage (taskList w ! i)) \<and>
     (\<forall>t\<in>set (timeouts w). t < length (taskList w))"

definition reader_inv :: "TxtReader \<Rightarrow> bool" where
  "reader_inv w \<longleftrightarrow> sched_inv w \<and> (runningTask w = None \<longrightarrow> queuedTaskList w = [])"

definition settle_task :: "int \<Rightarrow> IResponseMessage \<Rightarrow> TxtReaderTask \<Rightarrow> TxtReaderTask" where
  "settle_task now response k =
     k\<lparr>state := Completed,
       promiseObject := \<lparr>settled = outcome_of now response k, fulfilReactions = [],
                         rejectReactions = []\<rparr>,
       resolve := False, reject := False, promise := False\<rparr>"

definition finish :: "int \<Rightarrow> IResponseMessage \<Rightarrow> nat \<Rightarrow> TxtReader \<Rightarrow> TxtReader" where
  "finish now response r w =
     w\<lparr>taskList := (taskList w)[r := settle_task now response (taskList w ! r)],
       jobs := jobs w @ reactions_of r (outcome_of now response (taskList w ! r))
                          (promiseObject (taskList w ! r)),
       runningTask := None\<rparr>"

definition add_then :: "callback \<Rightarrow> TxtReaderTask \<Rightarrow> TxtReaderTask" where
  "add_then cb k = k\<lparr>promiseObject :=
     (promiseObject k)\<lparr>fulfilReactions := fulfilReactions (promiseObject k) @ [cb]\<rparr>\<rparr>"

definition add_catch :: "callback \<Rightarrow> TxtReaderTask \<Rightarrow> TxtReaderTask" where
  "add_catch cb k = k\<lparr>promiseObject :=
     (promiseObject k)\<lparr>rejectReactions := rejectReactions (promiseObject k) @ [cb]\<rparr>\<rparr>"

definition prepared :: "TxtReader \<Rightarrow> TxtReader \<Rightarrow> bool" where
  "prepared w w0 \<longleftrightarrow>
     (loadedFile w0 = None \<or> loadedFile w0 = loadedFile w) \<and>
     taskList w0 = taskList w \<and> runningTask w0 = runningTask w \<and>
     queuedTaskList w0 = queuedTaskList w \<and> posted w0 = posted w \<and>
     timeouts w0 = timeouts w \<and> jobs w0 = jobs w \<and> observed w0 = observed w"

definition created :: "int \<Rightarrow> TxtReader \<Rightarrow> TxtReader \<Rightarrow> bool" where
  "created now w w' \<longleftrightarrow>
     (\<exists>w0 act d. prepared w w0 \<and>
        (w' = snd (newTask now act d w0) \<or>
         (\<exists>cb. (\<forall>f. cb = LoadFileThen f \<longrightarrow> act = ''loadFile'') \<and>
               w' = task_then (length (taskList w)) cb (snd (newTask now act d w0)))))"

text \<open>Sample data for concrete runs.\<close>

text \<open>
  A platform for the runs: a clone that copies every object of the heap behind the heap and
  answers the copy of its argument, a decoder that reads a byte array as text and throws on
  anything else.
\<close>

definition relocate :: "nat \<Rightarrow> jsval \<Rightarrow> jsval" where
  "relocate n v = (case v of VRef a \<Rightarrow> VRef (a + n) | _ \<Rightarrow> v)"

definition copy_clone :: "heap \<Rightarrow> jsval \<Rightarrow> heap \<times> jsval" where
  "copy_clone h v =
     (h @ map (map (\<lambda>(k, x). (k, relocate (length h) x))) h, relocate (length h) v)"

definition sample_decode :: "msgval \<Rightarrow> msgval option" where
  "sample_decode v = (case v of MBytes bs \<Rightarrow> Some (MStr (map char_of bs)) | _ \<Rightarrow> None)"

definition sample_env :: platform where
  "sample_env = \<lparr>cloneDeep = copy_clone, utf8decoder = sample_decode,
                  toText = (\<lambda>h v. ''[object Object]''), toByte = (\<lambda>v. 0)\<rparr>"

definition reply1 :: IResponseMessage where
  "reply1 = \<lparr>resp_taskId = 1, resp_success = True, resp_done = True, resp_message = ''ok'',
              resp_result = MObj [(''lineCount'', MNum (Finite 4))]\<rparr>"

definition valid_progress :: "msgval \<Rightarrow> bool" where
  "valid_progress v = (case v of MNum n \<Rightarrow> in_percent n | _ \<Rightarrow> False)"

definition progress_calls :: "TxtReader \<Rightarrow> nat \<Rightarrow> msgval \<Rightarrow> invocation list" where
  "progress_calls w r v =
     (case (onProgress (taskList w ! r), v) of
        (Some cb, MNum n) \<Rightarrow> [OnProgress r cb n]
      | _ \<Rightarrow> [])"

definition probe :: "(int \<times> event) list" where
  "probe = [(1, Call (SetChunkSize (Finite 4))), (2, Progress 0 7)]"

definition dispatch_post :: "TxtReaderTask \<Rightarrow> RequestMessage list" where
  "dispatch_post k = (if is_Error (data (requestMessage k)) then [] else [requestMessage k])"

definition dispatch_timer :: "nat \<Rightarrow> TxtReaderTask \<Rightarrow> nat list" where
  "dispatch_timer t k = (if is_Error (data (requestMessage k)) then [t] else [])"

definition queue_scenario :: "(int \<times> event) list" where
  "queue_scenario =
     [(1, Call (LoadFile ''A'' VUndefined)), (2, Call (GetLines (Finite 0) (Finite 10) True))]"

definition keeps :: "nat \<Rightarrow> TxtReader \<Rightarrow> TxtReader \<Rightarrow> bool" where
  "keeps i w w' \<longleftrightarrow>
     i < length (taskList w') \<and>
     requestMessage (taskList w' ! i) = requestMessage (taskList w ! i) \<and>
     tid (taskList w' ! i) = tid (taskList w ! i) \<and>
     (settled (promiseObject (taskList w ! i)) \<noteq> Pending \<longrightarrow>
        settled (promiseObject (taskList w' ! i)) = settled (promiseObject (taskList w ! i)))"

definition settled_run :: "(int \<times> event) list" where
  "settled_run = [(1, Call (SetChunkSize (Finite 4))), (3, Message reply1)]"

definition observed_run :: "(int \<times> event) list" where
  "observed_run = [(1, Call (SetChunkSize (Finite 4))), (2, Then 0 7)]"



text \<open>
  \<open>val_le v v'\<close>: \<open>v'\<close> is \<open>v\<close>, or \<open>v\<close> is a function and \<open>v'\<close> its source text.
  \<open>heap_le h h'\<close>: \<open>h'\<close> has the objects of \<open>h\<close> with the same keys in the same order, and
  every property value of \<open>h'\<close> stands in \<open>val_le\<close> to the one of \<open>h\<close>.
\<close>

definition val_le :: "jsval \<Rightarrow> jsval \<Rightarrow> bool" where
  "val_le v v' \<longleftrightarrow> v' = v \<or> (\<exists>s. v = VFun s \<and> v' = VStr s)"

definition obj_le :: "obj \<Rightarrow> obj \<Rightarrow> bool" where
  "obj_le ob ob' \<longleftrightarrow> map fst ob' = map fst ob \<and> list_all2 val_le (map snd ob) (map snd ob')"

definition heap_le :: "heap \<Rightarrow> heap \<Rightarrow> bool" where
  "heap_le h h' \<longleftrightarrow> list_all2 obj_le h h'"

text \<open>The text \<^verbatim>\<open>["i"]\<close> that \<^verbatim>\<open>functionToString\<close> appends to a path for the key \<open>i\<close>.\<close>

definition bracket :: "string \<Rightarrow> string" where
  "bracket i = [CHR ''['', CHR 0x22] @ i @ [CHR 0x22, CHR '']'']"

text \<open>
  What code can observe of the object graph: \<open>edges h\<close> relates an object to the objects its
  enumerable properties refer to, \<open>reach h a\<close> is what can be reached from \<open>a\<close>, and
  \<open>clean h a\<close> says that no enumerable property of \<open>a\<close> reads as a function.
  \<open>lookup_path h v ks\<close> follows the keys \<open>ks\<close> from the value \<open>v\<close>, through objects only.
\<close>

definition edges :: "heap \<Rightarrow> (addr \<times> addr) set" where
  "edges h = {(a, b). \<exists>k\<in>set (keys_of h a). get_prop h a k = VRef b}"

definition reach :: "heap \<Rightarrow> addr \<Rightarrow> addr set" where
  "reach h a = (edges h)\<^sup>* `` {a}"

definition clean :: "heap \<Rightarrow> addr \<Rightarrow> bool" where
  "clean h a \<longleftrightarrow> (\<forall>k\<in>set (keys_of h a). \<forall>s. get_prop h a k \<noteq> VFun s)"

fun lookup_path :: "heap \<Rightarrow> jsval \<Rightarrow> string list \<Rightarrow> jsval option" where
  "lookup_path h v [] = Some v"
| "lookup_path h (VRef a) (k # ks) = lookup_path h (get_prop h a k) ks"
| "lookup_path h v (k # ks) = None"

definition render :: "string list \<Rightarrow> string" where
  "render ks = concat (map bracket ks)"

text \<open>The key \<open>k\<close> of \<open>a\<close> has been dealt with: it is no function, and below it nothing is.\<close>

definition converted :: "heap \<Rightarrow> addr \<Rightarrow> string \<Rightarrow> bool" where
  "converted h a k \<longleftrightarrow>
     (\<forall>s. get_prop h a k \<noteq> VFun s) \<and>
     (\<forall>b. get_prop h a k = VRef b \<longrightarrow> (\<forall>c\<in>reach h b. clean h c))"

fun job_task :: "job \<Rightarrow> nat" where
  "job_task (FulfilJob t cb) = t"
| "job_task (RejectJob t cb reason) = t"

definition after_observer :: "platform \<Rightarrow> ITaskResponse \<Rightarrow> callback \<Rightarrow> ITaskResponse" where
  "after_observer env v cb =
     (case cb of GetLinesThen dec \<Rightarrow> v\<lparr>result := decode_lines env dec (result v)\<rparr> | _ \<Rightarrow> v)"

fun notify :: "platform \<Rightarrow> nat \<Rightarrow> ITaskResponse \<Rightarrow> callback list \<Rightarrow> invocation list" where
  "notify env t v [] = []"
| "notify env t v (cb # cbs) = OnFulfilled t cb v # notify env t (after_observer env v cb) cbs"

text \<open>
  The outcome of the promise of task \<open>t\<close>, pending while the task does not exist yet, and the
  number of steps of a run at which that outcome changes.
\<close>

definition outcome_at :: "TxtReader \<Rightarrow> nat \<Rightarrow> settlement" where
  "outcome_at w t =
     (if t < length (taskList w) then settled (promiseObject (taskList w ! t)) else Pending)"

fun settle_count :: "nat \<Rightarrow> platform \<Rightarrow> nat \<Rightarrow> (int \<times> event) list \<Rightarrow> TxtReader \<Rightarrow> nat" where
  "settle_count stack env t [] w = 0"
| "settle_count stack env t (e # es) w =
     (if outcome_at (step stack env e w) t \<noteq> outcome_at w t then 1 else 0) +
     settle_count stack env t es (step stack env e w)"

text \<open>
  A run that loads a file and then asks for two lines, with a fulfilment, a rejection and a
  progress observer on the second task; and the worker's answer to it, two lines as bytes.
\<close>

definition lines_run :: "(int \<times> event) list" where
  "lines_run =
     [(1, Call (LoadFile ''A'' VUndefined)), (2, Message reply1),
      (3, Call (GetLines (Finite 0) (Finite 2) True)), (4, Then 1 7), (5, Catch 1 8),
      (6, Progress 1 9)]"

definition reply2 :: IResponseMessage where
  "reply2 = \<lparr>resp_taskId = 2, resp_success = True, resp_done = True, resp_message = ''ok'',
              resp_result = MArr [MBytes [104, 105], MBytes [33]]\<rparr>"






lemma nth_update_pres:
  "f (g (xs ! t)) = f (xs ! t) \<Longrightarrow> f (xs[t := g (xs ! t)] ! i) = f (xs ! i)"
  by (cases "i = t"; cases "t < length xs") (simp_all add: list_update_beyond)

lemma update_task_fields [simp]:
  "taskList (update_task t f w) = (taskList w)[t := f (taskList w ! t)]"
  "runningTask (update_task t f w) = runningTask w"
  "queuedTaskList (update_task t f w) = queuedTaskList w"
  "verboseLogging (update_task t f w) = verboseLogging w"
  "lineCount (update_task t f w) = lineCount w"
  "loadedFile (update_task t f w) = loadedFile w"
  "heap (update_task t f w) = heap w"
  "posted (update_task t f w) = posted w"
  "timeouts (update_task t f w) = timeouts w"
  "jobs (update_task t f w) = jobs w"
  "observed (update_task t f w) = observed w"
  by (simp_all add: update_task_def)

lemma runTask_fields [simp]:
  "taskList (runTask now t w) = (taskList w)[t := run now (taskList w ! t)]"
  "runningTask (runTask now t w) = Some t"
  "queuedTaskList (runTask now t w) = queuedTaskList w"
  "verboseLogging (runTask now t w) = verboseLogging w"
  "lineCount (runTask now t w) = lineCount w"
  "loadedFile (runTask now t w) = loadedFile w"
  "heap (runTask now t w) = heap w"
  "posted (runTask now t w) =
     (if is_Error (data (requestMessage (taskList w ! t))) then posted w
      else posted w @ [requestMessage (taskList w ! t)])"
  "timeouts (runTask now t w) =
     (if is_Error (data (requestMessage (taskList w ! t))) then timeouts w @ [t]
      else timeouts w)"
  "jobs (runTask now t w) = jobs w"
  "observed (runTask now t w) = observed w"
  by (simp_all add: runTask_def Let_def)

lemma newTask_fst [simp]: "fst (newTask now act d w) = length (taskList w)"
  by (simp add: newTask_def Let_def)

lemma newTask_fields [simp]:
  "taskList (snd (newTask now act d w)) =
     taskList w @ [if runningTask w = None then run now (fresh_task w act d)
                   else (fresh_task w act d)\<lparr>state := Queued\<rparr>]"
  "runningTask (snd (newTask now act d w)) =
     (if runningTask w = None then Some (length (taskList w)) else runningTask w)"
  "queuedTaskList (snd (newTask now act d w)) =
     (if runningTask w = None then queuedTaskList w else queuedTaskList w @ [length (taskList w)])"
  "verboseLogging (snd (newTask now act d w)) = verboseLogging w"
  "lineCount (snd (newTask now act d w)) = lineCount w"
  "loadedFile (snd (newTask now act d w)) = loadedFile w"
  "heap (snd (newTask now act d w)) = heap w"
  "posted (snd (newTask now act d w)) =
     (if runningTask w = None \<and> \<not> is_Error (data (requestMessage (fresh_task w act d)))
      then posted w @ [requestMessage (fresh_task w act d)] else posted w)"
  "timeouts (snd (newTask now act d w)) =
     (if runningTask w = None \<and> is_Error (data (requestMessage (fresh_task w act d)))
      then timeouts w @ [length (taskList w)] else timeouts w)"
  "jobs (snd (newTask now act d w)) = jobs w"
  "observed (snd (newTask now act d w)) = observed w"
  by (simp_all add: newTask_def Let_def fresh_task_def)

lemma fresh_task_fields [simp]:
  "tid (fresh_task w act d) = newTaskId w"
  "taskId (requestMessage (fresh_task w act d)) = Some (newTaskId w)"
  "action (requestMessage (fresh_task w act d)) = act"
  "data (requestMessage (fresh_task w act d)) = (if d \<noteq> DVal VUndefined then d else DVal VNull)"
  "state (fresh_task w act d) = Initialized"
  "onProgress (fresh_task w act d) = None"
  "promiseObject (fresh_task w act d) = \<lparr>settled = Pending, fulfilReactions = [], rejectReactions = []\<rparr>"
  "promise (fresh_task w act d)"
  "resolve (fresh_task w act d)"
  "reject (fresh_task w act d)"
  "startTime (fresh_task w act d) = 0"
  by (simp_all add: fresh_task_def new_TxtReaderTask_def new_RequestMessage_def)

lemma run_fields [simp]:
  "tid (run now k) = tid k"
  "requestMessage (run now k) = requestMessage k"
  "state (run now k) = Running"
  "onProgress (run now k) = onProgress k"
  "promiseObject (run now k) = promiseObject k"
  "promise (run now k) = promise k"
  "resolve (run now k) = resolve k"
  "reject (run now k) = reject k"
  "startTime (run now k) = now"
  by (simp_all add: run_def)

lemma newTaskId_inv:
  assumes "sched_inv w"
  shows "newTaskId w = Suc (length (taskList w))"
proof (cases "taskList w = []")
  case True
  then show ?thesis by (simp add: newTaskId_def)
next
  case False
  then have "length (taskList w) - 1 < length (taskList w)" by simp
  with assms have "task_inv w (length (taskList w) - 1)"
    unfolding sched_inv_def by blast
  then have "tid (taskList w ! (length (taskList w) - 1)) = Suc (length (taskList w) - 1)"
    by (simp add: task_inv_def Let_def)
  with False show ?thesis by (simp add: newTaskId_def Let_def)
qed

lemma newTask_inv_old:
  assumes I: "sched_inv w" and i: "i < length (taskList w)"
  shows "task_inv (snd (newTask now act d w)) i"
proof -
  from I i have T: "task_inv w i" unfolding sched_inv_def by blast
  have id: "newTaskId w = Suc (length (taskList w))" by (rule newTaskId_inv [OF I])
  from T i id show ?thesis
    by (auto simp add: task_inv_def Let_def nth_append)
qed

lemma newTask_inv_new:
  assumes I: "sched_inv w"
  shows "task_inv (snd (newTask now act d w)) (length (taskList w))"
proof -
  have id: "newTaskId w = Suc (length (taskList w))" by (rule newTaskId_inv [OF I])
  from I have P: "\<forall>m\<in>set (posted w). \<exists>i<length (taskList w). m = requestMessage (taskList w ! i)"
    and Q: "\<forall>t\<in>set (queuedTaskList w). t < length (taskList w)"
    and TO: "\<forall>t\<in>set (timeouts w). t < length (taskList w)"
    and TI: "\<forall>i<length (taskList w). task_inv w i"
    unfolding sched_inv_def by blast+
  have np: "requestMessage (fresh_task w act d) \<notin> set (posted w)"
  proof
    assume "requestMessage (fresh_task w act d) \<in> set (posted w)"
    with P obtain i where i: "i < length (taskList w)"
      and e: "requestMessage (fresh_task w act d) = requestMessage (taskList w ! i)" by blast
    from TI i have "taskId (requestMessage (taskList w ! i)) = Some (Suc i)"
      by (simp add: task_inv_def Let_def)
    with e [symmetric] id i show False by simp
  qed
  from Q have nq: "length (taskList w) \<notin> set (queuedTaskList w)" by auto
  from TO have nt: "length (taskList w) \<notin> set (timeouts w)" by auto
  from I have nr: "runningTask w \<noteq> Some (length (taskList w))"
    unfolding sched_inv_def by auto
  from id np nq nt nr show ?thesis
    by (auto simp add: task_inv_def Let_def nth_append)
qed

lemma newTask_inv:
  assumes I: "sched_inv w"
  shows "sched_inv (snd (newTask now act d w))"
proof -
  have A: "\<forall>i<length (taskList (snd (newTask now act d w))). task_inv (snd (newTask now act d w)) i"
    using newTask_inv_old [OF I] newTask_inv_new [OF I]
    by (auto simp add: less_Suc_eq)
  from I have rest: "distinct (queuedTaskList w)"
     "\<forall>t\<in>set (queuedTaskList w). t < length (taskList w)"
     "\<forall>r. runningTask w = Some r \<longrightarrow> r < length (taskList w)"
     "\<forall>m\<in>set (posted w). \<exists>i<length (taskList w). m = requestMessage (taskList w ! i)"
     "\<forall>t\<in>set (timeouts w). t < length (taskList w)"
    unfolding sched_inv_def by blast+
  have B: "distinct (queuedTaskList (snd (newTask now act d w)))"
    using rest by auto
  have C: "\<forall>t\<in>set (queuedTaskList (snd (newTask now act d w))). t < length (taskList (snd (newTask now act d w)))"
    using rest by (auto simp: less_Suc_eq)
  have D: "\<forall>r. runningTask (snd (newTask now act d w)) = Some r \<longrightarrow> r < length (taskList (snd (newTask now act d w)))"
    using rest by (auto simp: less_Suc_eq)
  have F: "\<forall>m\<in>set (posted (snd (newTask now act d w))). \<exists>i<length (taskList (snd (newTask now act d w))). m = requestMessage (taskList (snd (newTask now act d w)) ! i)"
  proof
    fix m assume m: "m \<in> set (posted (snd (newTask now act d w)))"
    show "\<exists>i<length (taskList (snd (newTask now act d w))). m = requestMessage (taskList (snd (newTask now act d w)) ! i)"
    proof (cases "m \<in> set (posted w)")
      case True
      with rest(4) obtain i where "i < length (taskList w)" "m = requestMessage (taskList w ! i)" by blast
      then show ?thesis by (intro exI [of _ i]) (simp add: nth_append)
    next
      case False
      with m have "m = requestMessage (fresh_task w act d)" "runningTask w = None"
        by (auto split: if_splits)
      then show ?thesis by (intro exI [of _ "length (taskList w)"]) (simp add: nth_append)
    qed
  qed
  have G: "\<forall>t\<in>set (timeouts (snd (newTask now act d w))). t < length (taskList (snd (newTask now act d w)))"
    using rest by (auto simp: less_Suc_eq)
  from A B C D F G show ?thesis unfolding sched_inv_def by blast
qed

lemma newTask_reader_inv:
  assumes I: "reader_inv w"
  shows "reader_inv (snd (newTask now act d w))"
  using I newTask_inv [of w now act d] by (auto simp: reader_inv_def)

lemma complete_eq:
  assumes "t < length (taskList w)" "resolve (taskList w ! t)" "reject (taskList w ! t)"
    "settled (promiseObject (taskList w ! t)) = Pending"
  shows "complete now t response w =
     (None, w\<lparr>taskList := (taskList w)[t := settle_task now response (taskList w ! t)],
               jobs := jobs w @ reactions_of t (outcome_of now response (taskList w ! t))
                                  (promiseObject (taskList w ! t))\<rparr>)"
  using assms
  by (simp add: complete_def Let_def promise_resolve_def promise_reject_def settle_task_def
      outcome_of_def reactions_of_def dispose_def update_task_def)

lemma finish_fields [simp]:
  "taskList (finish now response r w) = (taskList w)[r := settle_task now response (taskList w ! r)]"
  "runningTask (finish now response r w) = None"
  "queuedTaskList (finish now response r w) = queuedTaskList w"
  "verboseLogging (finish now response r w) = verboseLogging w"
  "lineCount (finish now response r w) = lineCount w"
  "loadedFile (finish now response r w) = loadedFile w"
  "heap (finish now response r w) = heap w"
  "posted (finish now response r w) = posted w"
  "timeouts (finish now response r w) = timeouts w"
  "jobs (finish now response r w) = jobs w @ reactions_of r (outcome_of now response (taskList w ! r))
                          (promiseObject (taskList w ! r))"
  "observed (finish now response r w) = observed w"
  by (simp_all add: finish_def)

lemma settle_task_fields [simp]:
  "tid (settle_task now response k) = tid k"
  "requestMessage (settle_task now response k) = requestMessage k"
  "state (settle_task now response k) = Completed"
  "onProgress (settle_task now response k) = onProgress k"
  "settled (promiseObject (settle_task now response k)) = outcome_of now response k"
  "fulfilReactions (promiseObject (settle_task now response k)) = []"
  "rejectReactions (promiseObject (settle_task now response k)) = []"
  "promise (settle_task now response k) = False"
  "resolve (settle_task now response k) = False"
  "reject (settle_task now response k) = False"
  "startTime (settle_task now response k) = startTime k"
  by (simp_all add: settle_task_def)

lemma outcome_of_not_Pending [simp]: "outcome_of now response k \<noteq> Pending"
  by (simp add: outcome_of_def)

lemma sched_inv_running:
  assumes "sched_inv w" "runningTask w = Some r"
  shows "r < length (taskList w)" "state (taskList w ! r) = Running"
    "resolve (taskList w ! r)" "reject (taskList w ! r)" "promise (taskList w ! r)"
    "settled (promiseObject (taskList w ! r)) = Pending"
proof -
  from assms show r: "r < length (taskList w)" unfolding sched_inv_def by blast
  with assms have "task_inv w r" unfolding sched_inv_def by blast
  with assms(2) show "state (taskList w ! r) = Running"
    "resolve (taskList w ! r)" "reject (taskList w ! r)" "promise (taskList w ! r)"
    "settled (promiseObject (taskList w ! r)) = Pending"
    by (auto simp: task_inv_def Let_def)
qed

lemma completeTask_eq:
  assumes "sched_inv w" "runningTask w = Some r"
  shows "completeTask now response w = (None, runNextTask now (finish now response r w))"
  using sched_inv_running [OF assms] assms(2)
  by (simp add: completeTask_def complete_eq finish_def)

lemma finish_inv:
  assumes I: "sched_inv w" and r: "runningTask w = Some r"
  shows "sched_inv (finish now response r w)"
proof -
  note R = sched_inv_running [OF I r]
  have A: "task_inv (finish now response r w) i" if i: "i < length (taskList w)" for i
  proof -
    from I i have T: "task_inv w i" unfolding sched_inv_def by blast
    show ?thesis
    proof (cases "i = r")
      case True
      with T R r show ?thesis by (auto simp: task_inv_def Let_def)
    next
      case False
      with T R r i show ?thesis by (auto simp: task_inv_def Let_def)
    qed
  qed
  from I have rest: "distinct (queuedTaskList w)"
     "\<forall>t\<in>set (queuedTaskList w). t < length (taskList w)"
     "\<forall>m\<in>set (posted w). \<exists>i<length (taskList w). m = requestMessage (taskList w ! i)"
     "\<forall>t\<in>set (timeouts w). t < length (taskList w)"
    unfolding sched_inv_def by blast+
  have P: "\<forall>m\<in>set (posted (finish now response r w)).
      \<exists>i<length (taskList (finish now response r w)). m = requestMessage (taskList (finish now response r w) ! i)"
  proof
    fix m assume "m \<in> set (posted (finish now response r w))"
    with rest(3) obtain i where "i < length (taskList w)" "m = requestMessage (taskList w ! i)" by auto
    then show "\<exists>i<length (taskList (finish now response r w)). m = requestMessage (taskList (finish now response r w) ! i)"
      by (intro exI [of _ i]) (simp add: nth_update_pres)
  qed
  from A rest(1,2,4) P show ?thesis unfolding sched_inv_def by simp
qed

lemma task_inv_ids:
  assumes "task_inv w i"
  shows "tid (taskList w ! i) = Suc i" "taskId (requestMessage (taskList w ! i)) = Some (Suc i)"
  using assms by (simp_all add: task_inv_def Let_def)

lemma sched_inv_task: "sched_inv w \<Longrightarrow> i < length (taskList w) \<Longrightarrow> task_inv w i"
  by (simp add: sched_inv_def)

lemma requests_distinct:
  assumes "sched_inv w" "i < length (taskList w)" "j < length (taskList w)"
    "requestMessage (taskList w ! i) = requestMessage (taskList w ! j)"
  shows "i = j"
proof -
  have "Some (Suc i) = taskId (requestMessage (taskList w ! i))"
    using task_inv_ids(2) [OF sched_inv_task [OF assms(1,2)]] by simp
  also have "\<dots> = taskId (requestMessage (taskList w ! j))"
    by (simp only: assms(4))
  also have "\<dots> = Some (Suc j)"
    using task_inv_ids(2) [OF sched_inv_task [OF assms(1,3)]] by simp
  finally show ?thesis by simp
qed

lemma runNextTask_inv:
  assumes I: "sched_inv w" and r: "runningTask w = None"
  shows "reader_inv (runNextTask now w)"
proof (cases "queuedTaskList w")
  case Nil
  with I r show ?thesis by (simp add: runNextTask_def reader_inv_def)
next
  case (Cons t q)
  let ?w = "runTask now t (w\<lparr>queuedTaskList := q\<rparr>)"
  from I have rest: "distinct (queuedTaskList w)"
     "\<forall>t\<in>set (queuedTaskList w). t < length (taskList w)"
     "\<forall>m\<in>set (posted w). \<exists>i<length (taskList w). m = requestMessage (taskList w ! i)"
     "\<forall>t\<in>set (timeouts w). t < length (taskList w)"
    by (simp_all add: sched_inv_def)
  from rest Cons have t: "t < length (taskList w)" "t \<notin> set q" "distinct q" by auto
  have A: "task_inv ?w i" if i: "i < length (taskList w)" for i
  proof -
    from I i have T: "task_inv w i" by (rule sched_inv_task)
    show ?thesis
    proof (cases "i = t")
      case True
      with T t r Cons show ?thesis by (auto simp: task_inv_def Let_def)
    next
      case False
      then have "requestMessage (taskList w ! i) \<noteq> requestMessage (taskList w ! t)"
        using requests_distinct [OF I i t(1)] by blast
      with False T t r Cons i show ?thesis by (auto simp: task_inv_def Let_def)
    qed
  qed
  have P: "\<forall>m\<in>set (posted ?w). \<exists>i<length (taskList ?w). m = requestMessage (taskList ?w ! i)"
  proof
    fix m assume m: "m \<in> set (posted ?w)"
    show "\<exists>i<length (taskList ?w). m = requestMessage (taskList ?w ! i)"
    proof (cases "m \<in> set (posted w)")
      case True
      with rest(3) obtain i where "i < length (taskList w)" "m = requestMessage (taskList w ! i)" by auto
      then show ?thesis by (intro exI [of _ i]) (simp add: nth_update_pres)
    next
      case False
      with m have "m = requestMessage (taskList w ! t)" by (auto split: if_splits)
      with t show ?thesis by (intro exI [of _ t]) (simp add: nth_update_pres)
    qed
  qed
  have B: "\<forall>i<length (taskList ?w). task_inv ?w i" using A by simp
  have C: "distinct (queuedTaskList ?w)" using t by simp
  have D: "\<forall>t\<in>set (queuedTaskList ?w). t < length (taskList ?w)" using rest(2) Cons by simp
  have E: "\<forall>r. runningTask ?w = Some r \<longrightarrow> r < length (taskList ?w)" using t by simp
  have F: "\<forall>t\<in>set (timeouts ?w). t < length (taskList ?w)" using rest(4) t by simp
  have "sched_inv ?w"
    unfolding sched_inv_def by (intro conjI B C D E P F)
  then show ?thesis using Cons by (simp add: runNextTask_def reader_inv_def)
qed

lemma completeTask_inv:
  assumes "reader_inv w"
  shows "fst (completeTask now response w) = None" "reader_inv (snd (completeTask now response w))"
proof -
  from assms have I: "sched_inv w" by (simp add: reader_inv_def)
  show "fst (completeTask now response w) = None"
  proof (cases "runningTask w")
    case None
    then show ?thesis by (simp add: completeTask_def)
  next
    case (Some r)
    show ?thesis by (simp add: completeTask_eq [OF I Some])
  qed
  show "reader_inv (snd (completeTask now response w))"
  proof (cases "runningTask w")
    case None
    with assms show ?thesis by (simp add: completeTask_def)
  next
    case (Some r)
    show ?thesis
      using runNextTask_inv [OF finish_inv [OF I Some]]
      by (simp add: completeTask_eq [OF I Some])
  qed
qed

lemma task_inv_cong:
  assumes "taskList w' ! i = taskList w ! i" "runningTask w' = runningTask w"
    "queuedTaskList w' = queuedTaskList w" "posted w' = posted w" "timeouts w' = timeouts w"
  shows "task_inv w' i = task_inv w i"
  by (simp add: task_inv_def assms)

lemma sched_inv_cong:
  assumes "taskList w' = taskList w" "runningTask w' = runningTask w"
    "queuedTaskList w' = queuedTaskList w" "posted w' = posted w" "timeouts w' = timeouts w"
  shows "sched_inv w' = sched_inv w"
  by (simp add: sched_inv_def assms task_inv_cong [of w' _ w])

lemma reader_inv_cong:
  assumes "taskList w' = taskList w" "runningTask w' = runningTask w"
    "queuedTaskList w' = queuedTaskList w" "posted w' = posted w" "timeouts w' = timeouts w"
  shows "reader_inv w' = reader_inv w"
  by (simp add: reader_inv_def assms sched_inv_cong [of w' w])

lemma sched_inv_update_task:
  assumes I: "sched_inv w"
    and f: "tid (f (taskList w ! t)) = tid (taskList w ! t)"
      "requestMessage (f (taskList w ! t)) = requestMessage (taskList w ! t)"
      "state (f (taskList w ! t)) = state (taskList w ! t)"
      "settled (promiseObject (f (taskList w ! t))) = settled (promiseObject (taskList w ! t))"
      "promise (f (taskList w ! t)) = promise (taskList w ! t)"
      "resolve (f (taskList w ! t)) = resolve (taskList w ! t)"
      "reject (f (taskList w ! t)) = reject (taskList w ! t)"
  shows "sched_inv (update_task t f w)"
proof -
  have A: "task_inv (update_task t f w) i" if i: "i < length (taskList w)" for i
  proof -
    from I i have T: "task_inv w i" by (rule sched_inv_task)
    show ?thesis
    proof (cases "i = t")
      case True
      with T i f show ?thesis by (auto simp add: task_inv_def Let_def)
    next
      case False
      then have "t \<noteq> i" by simp
      then have "task_inv (update_task t f w) i = task_inv w i"
        by (intro task_inv_cong) simp_all
      with T show ?thesis by simp
    qed
  qed
  from I have rest: "distinct (queuedTaskList w)"
     "\<forall>t\<in>set (queuedTaskList w). t < length (taskList w)"
     "\<forall>r. runningTask w = Some r \<longrightarrow> r < length (taskList w)"
     "\<forall>m\<in>set (posted w). \<exists>i<length (taskList w). m = requestMessage (taskList w ! i)"
     "\<forall>t\<in>set (timeouts w). t < length (taskList w)"
    by (simp_all add: sched_inv_def)
  have B: "\<forall>i<length (taskList (update_task t f w)). task_inv (update_task t f w) i"
    using A by simp
  have P: "\<forall>m\<in>set (posted (update_task t f w)).
     \<exists>i<length (taskList (update_task t f w)). m = requestMessage (taskList (update_task t f w) ! i)"
  proof
    fix m assume "m \<in> set (posted (update_task t f w))"
    with rest(4) obtain i where "i < length (taskList w)" "m = requestMessage (taskList w ! i)" by auto
    then show "\<exists>i<length (taskList (update_task t f w)). m = requestMessage (taskList (update_task t f w) ! i)"
      using f(2) by (intro exI [of _ i]) (simp add: nth_update_pres)
  qed
  show ?thesis unfolding sched_inv_def
    using rest(1,2,3,5) by (intro conjI B P) simp_all
qed

lemma reader_inv_update_task:
  assumes I: "reader_inv w"
    and f: "tid (f (taskList w ! t)) = tid (taskList w ! t)"
      "requestMessage (f (taskList w ! t)) = requestMessage (taskList w ! t)"
      "state (f (taskList w ! t)) = state (taskList w ! t)"
      "settled (promiseObject (f (taskList w ! t))) = settled (promiseObject (taskList w ! t))"
      "promise (f (taskList w ! t)) = promise (taskList w ! t)"
      "resolve (f (taskList w ! t)) = resolve (taskList w ! t)"
      "reject (f (taskList w ! t)) = reject (taskList w ! t)"
  shows "reader_inv (update_task t f w)"
  using I sched_inv_update_task [of w f t, OF _ f] by (simp add: reader_inv_def)

lemma task_inv_promise:
  assumes "task_inv w i"
  shows "promise (taskList w ! i) \<longleftrightarrow> settled (promiseObject (taskList w ! i)) = Pending"
    "promise (taskList w ! i) \<longleftrightarrow> state (taskList w ! i) \<noteq> Completed"
    "resolve (taskList w ! i) \<longleftrightarrow> state (taskList w ! i) \<noteq> Completed"
    "reject (taskList w ! i) \<longleftrightarrow> state (taskList w ! i) \<noteq> Completed"
  using assms by (simp_all add: task_inv_def Let_def)

lemma task_then_eq:
  assumes "sched_inv w" "t < length (taskList w)"
  shows "task_then t cb w =
    (if state (taskList w ! t) = Completed then w else update_task t (add_then cb) w)"
  using task_inv_promise [OF sched_inv_task [OF assms]]
  by (auto simp add: task_then_def Let_def add_then_def)

lemma task_catch_eq:
  assumes "sched_inv w" "t < length (taskList w)"
  shows "task_catch t cb w =
    (if state (taskList w ! t) = Completed then w else update_task t (add_catch cb) w)"
  using task_inv_promise [OF sched_inv_task [OF assms]]
  by (auto simp add: task_catch_def Let_def add_catch_def)

lemma task_then_inv:
  assumes "reader_inv w" "t < length (taskList w)"
  shows "reader_inv (task_then t cb w)"
proof -
  from assms have I: "sched_inv w" by (simp add: reader_inv_def)
  show ?thesis
    using assms(1) reader_inv_update_task [OF assms(1), of "add_then cb" t]
    by (simp add: task_then_eq [OF I assms(2)] add_then_def)
qed

lemma task_catch_inv:
  assumes "reader_inv w" "t < length (taskList w)"
  shows "reader_inv (task_catch t cb w)"
proof -
  from assms have I: "sched_inv w" by (simp add: reader_inv_def)
  show ?thesis
    using assms(1) reader_inv_update_task [OF assms(1), of "add_catch cb" t]
    by (simp add: task_catch_eq [OF I assms(2)] add_catch_def)
qed

lemma task_progress_inv:
  assumes "reader_inv w"
  shows "reader_inv (task_progress t cb w)"
  unfolding task_progress_def
  by (rule reader_inv_update_task [OF assms]) simp_all

lemma updateProgress_fields [simp]:
  "taskList (updateProgress t n w) = taskList w"
  "runningTask (updateProgress t n w) = runningTask w"
  "queuedTaskList (updateProgress t n w) = queuedTaskList w"
  "verboseLogging (updateProgress t n w) = verboseLogging w"
  "lineCount (updateProgress t n w) = lineCount w"
  "loadedFile (updateProgress t n w) = loadedFile w"
  "heap (updateProgress t n w) = heap w"
  "posted (updateProgress t n w) = posted w"
  "timeouts (updateProgress t n w) = timeouts w"
  "jobs (updateProgress t n w) = jobs w"
  "observed (updateProgress t n w) =
     (case onProgress (taskList w ! t) of None \<Rightarrow> observed w
      | Some cb \<Rightarrow> observed w @ [OnProgress t cb n])"
  by (simp_all add: updateProgress_def split: option.splits)

lemma on_message_inv:
  assumes "reader_inv w"
  shows "reader_inv (snd (on_message now response w))"
proof (cases "runningTask w")
  case None
  with assms show ?thesis by (simp add: on_message_def)
next
  case (Some r)
  have U: "reader_inv (updateProgress r n w)" for n
    using assms by (simp add: reader_inv_cong [of "updateProgress r n w" w])
  show ?thesis
    using Some assms completeTask_inv(2) [OF assms, of now response] U
    by (simp add: on_message_def split: msgval.splits)
qed

lemma reader_inv_timeouts:
  assumes I: "reader_inv w" and s: "set ts \<subseteq> set (timeouts w)"
  shows "reader_inv (w\<lparr>timeouts := ts\<rparr>)"
proof -
  from I have S: "sched_inv w" and Q: "runningTask w = None \<longrightarrow> queuedTaskList w = []"
    by (simp_all add: reader_inv_def)
  have A: "task_inv (w\<lparr>timeouts := ts\<rparr>) i" if i: "i < length (taskList w)" for i
    using sched_inv_task [OF S i] s by (auto simp add: task_inv_def Let_def)
  from S have rest: "distinct (queuedTaskList w)"
     "\<forall>t\<in>set (queuedTaskList w). t < length (taskList w)"
     "\<forall>r. runningTask w = Some r \<longrightarrow> r < length (taskList w)"
     "\<forall>m\<in>set (posted w). \<exists>i<length (taskList w). m = requestMessage (taskList w ! i)"
     "\<forall>t\<in>set (timeouts w). t < length (taskList w)"
    by (simp_all add: sched_inv_def)
  have "sched_inv (w\<lparr>timeouts := ts\<rparr>)"
    unfolding sched_inv_def using A rest s by auto
  with Q show ?thesis by (simp add: reader_inv_def)
qed

lemma on_timeout_inv:
  assumes "reader_inv w"
  shows "reader_inv (snd (on_timeout now w))"
proof (cases "timeouts w")
  case Nil
  with assms show ?thesis by (simp add: on_timeout_def)
next
  case (Cons t rest)
  then have "reader_inv (w\<lparr>timeouts := rest\<rparr>)"
    by (intro reader_inv_timeouts [OF assms]) auto
  from completeTask_inv(2) [OF this] Cons show ?thesis
    by (simp add: on_timeout_def Let_def)
qed



lemma set_prop_length [simp]: "length (set_prop h a i v) = length h"
  by (simp add: set_prop_def)








lemma val_le_refl [simp]: "val_le v v"
  by (simp add: val_le_def)

lemma val_le_trans: "val_le u v \<Longrightarrow> val_le v w \<Longrightarrow> val_le u w"
  by (auto simp add: val_le_def)

lemma obj_le_refl [simp]: "obj_le ob ob"
  by (simp add: obj_le_def list_all2_refl)

lemma obj_le_trans: "obj_le a b \<Longrightarrow> obj_le b c \<Longrightarrow> obj_le a c"
  unfolding obj_le_def
  by (auto elim: list_all2_trans [rotated] intro: val_le_trans)

lemma heap_le_refl [simp]: "heap_le h h"
  by (simp add: heap_le_def list_all2_refl)

lemma heap_le_trans: "heap_le a b \<Longrightarrow> heap_le b c \<Longrightarrow> heap_le a c"
  unfolding heap_le_def
  by (auto elim: list_all2_trans [rotated] intro: obj_le_trans)

lemma heap_le_length: "heap_le h h' \<Longrightarrow> length h' = length h"
  by (simp add: heap_le_def list_all2_lengthD)

lemma heap_le_object: "heap_le h h' \<Longrightarrow> obj_le (object_at h a) (object_at h' a)"
  by (auto simp add: heap_le_def object_at_def list_all2_lengthD list_all2_nthD)

lemma obj_le_map_of:
  "obj_le ob ob' \<Longrightarrow>
     (case map_of ob k of None \<Rightarrow> map_of ob' k = None
      | Some v \<Rightarrow> (\<exists>v'. map_of ob' k = Some v' \<and> val_le v v'))"
proof (induction ob arbitrary: ob')
  case Nil
  then show ?case by (simp add: obj_le_def)
next
  case (Cons p ob)
  from Cons.prems obtain p' ob'' where o: "ob' = p' # ob''" "fst p' = fst p"
    "val_le (snd p) (snd p')" "obj_le ob ob''"
    by (cases ob') (auto simp add: obj_le_def)
  from Cons.IH [OF o(4)] o(1,2,3) show ?case
    by (cases p; cases p') (auto split: option.splits)
qed

lemma heap_le_get_prop: "heap_le h h' \<Longrightarrow> val_le (get_prop h a i) (get_prop h' a i)"
  using obj_le_map_of [OF heap_le_object, of h h' a i]
  by (auto simp add: get_prop_def split: option.splits)

lemma heap_le_keys: "heap_le h h' \<Longrightarrow> keys_of h' a = keys_of h a"
  using heap_le_object [of h h' a] by (simp add: keys_of_def obj_le_def)

lemma obj_le_update:
  "map_of ob k = Some v \<Longrightarrow> val_le v v' \<Longrightarrow> obj_le ob (AList.update k v' ob)"
proof (induction ob)
  case Nil
  then show ?case by simp
next
  case (Cons p ob)
  then show ?case
    by (cases p) (auto simp add: obj_le_def list_all2_refl split: if_splits)
qed

lemma set_prop_le:
  assumes "get_prop h a i = v" "v \<noteq> VUndefined" "val_le v v'"
  shows "heap_le h (set_prop h a i v')"
proof (cases "a < length h")
  case True
  from assms(1,2) True have m: "map_of (h ! a) i = Some v"
    by (auto simp add: get_prop_def object_at_def split: option.splits)
  have "obj_le (h ! b) (h[a := AList.update i v' (h ! a)] ! b)" if "b < length h" for b
    using that obj_le_update [OF m assms(3)] by (cases "b = a") simp_all
  with True show ?thesis
    by (simp add: heap_le_def set_prop_def list_all2_conv_all_nth)
next
  case False
  then show ?thesis by (simp add: set_prop_def)
qed

lemma set_prop_same:
  assumes "get_prop h a i = v" "v \<noteq> VUndefined"
  shows "set_prop h a i v = h"
proof (cases "a < length h")
  case True
  from assms True have m: "map_of (h ! a) i = Some v"
    by (auto simp add: get_prop_def object_at_def split: option.splits)
  with True show ?thesis by (simp add: set_prop_def update_triv)
next
  case False
  then show ?thesis by (simp add: set_prop_def)
qed

lemma val_le_ref [simp]: "val_le (VRef b) v \<longleftrightarrow> v = VRef b" "val_le v (VRef b) \<longleftrightarrow> v = VRef b"
  by (auto simp add: val_le_def)

lemma val_le_null [simp]: "val_le VNull v \<longleftrightarrow> v = VNull"
  by (auto simp add: val_le_def)

lemma val_le_fun [simp]: "val_le v (VFun s) \<longleftrightarrow> v = VFun s"
  by (auto simp add: val_le_def)

lemma val_le_str [simp]: "val_le (VStr s) v \<longleftrightarrow> v = VStr s"
  by (auto simp add: val_le_def)

lemma walk_le:
  "functionToString n h fm ob entry = Some (h', fm', v) \<Longrightarrow>
     heap_le h h' \<and> v = ob \<and> (\<exists>new. fm' = fm @ new)"
  "for_in n h fm a path ks = Some (h', fm'') \<Longrightarrow> heap_le h h' \<and> (\<exists>new. fm'' = fm @ new)"
proof (induction n h fm ob entry and n h fm a path ks arbitrary: h' fm' v and h' fm''
    rule: functionToString_for_in.induct)
  case (1 h fm ob entry)
  then show ?case by simp
next
  case (2 n h fm ob entry)
  show ?case
  proof (cases ob)
    case (VRef a)
    with "2.prems" have
      f: "for_in n h fm a entry (keys_of h a) = Some (h', fm')" and v: "v = ob"
      by (auto split: option.splits)
    from "2.IH" [OF VRef f] v show ?thesis by simp
  qed (use "2.prems" in auto)
next
  case (3 n h fm a path)
  then show ?case by simp
next
  case (4 n h fm a path i ks)
  let ?pathi = "path @ [CHR ''['', CHR 0x22] @ i @ [CHR 0x22, CHR '']'']"
  show ?case
  proof (cases "get_prop h a i")
    case (VFun src)
    with "4.prems" have f: "for_in n (set_prop h a i (VStr src)) (fm @ [?pathi]) a path ks = Some (h', fm'')"
      by (simp add: Let_def)
    have "heap_le h (set_prop h a i (VStr src))"
      by (rule set_prop_le [OF VFun]) (simp_all add: val_le_def)
    with "4.IH"(7) [OF refl VFun f] show ?thesis by (auto intro: heap_le_trans)
  next
    case (VRef b)
    with "4.prems" obtain h1 fm1 v1 where
      g: "functionToString n h fm (VRef b) ?pathi = Some (h1, fm1, v1)"
      and f: "for_in n (set_prop h1 a i v1) fm1 a path ks = Some (h', fm'')"
      by (auto simp add: Let_def split: option.splits)
    from "4.IH"(8) [OF refl VRef g]
    have 1: "heap_le h h1" "v1 = VRef b" "\<exists>new. fm1 = fm @ new" by simp_all
    from heap_le_get_prop [OF 1(1), of a i] VRef have "get_prop h1 a i = VRef b" by simp
    then have "set_prop h1 a i v1 = h1" using 1(2) by (intro set_prop_same) simp_all
    with "4.IH"(9) [OF refl VRef g refl refl f] 1 show ?thesis
      by (auto intro: heap_le_trans)
  next
    case VNull
    with "4.prems" obtain h1 fm1 v1 where
      g: "functionToString n h fm VNull ?pathi = Some (h1, fm1, v1)"
      and f: "for_in n (set_prop h1 a i v1) fm1 a path ks = Some (h', fm'')"
      by (auto simp add: Let_def split: option.splits)
    from "4.IH"(2) [OF refl VNull g]
    have 1: "heap_le h h1" "v1 = VNull" "\<exists>new. fm1 = fm @ new" by simp_all
    from heap_le_get_prop [OF 1(1), of a i] VNull have "get_prop h1 a i = VNull" by simp
    then have "set_prop h1 a i v1 = h1" using 1(2) by (intro set_prop_same) simp_all
    with "4.IH"(3) [OF refl VNull g refl refl f] 1 show ?thesis
      by (auto intro: heap_le_trans)
  qed (use "4.prems" "4.IH" in \<open>auto simp add: Let_def\<close>)
qed

lemma functionToString_simps:
  "functionToString (Suc n) h fm (VRef a) entry =
     (case for_in n h fm a entry (keys_of h a) of None \<Rightarrow> None
      | Some (h', fm') \<Rightarrow> Some (h', fm', VRef a))"
  "\<forall>a. ob \<noteq> VRef a \<Longrightarrow> functionToString (Suc n) h fm ob entry = Some (h, fm, ob)"
  by (auto split: jsval.splits)

lemma for_in_fun:
  "get_prop h a i = VFun s \<Longrightarrow>
     for_in n h fm a path (i # ks) =
       for_in n (set_prop h a i (VStr s)) (fm @ [path @ bracket i]) a path ks"
  by (simp add: Let_def bracket_def)

lemma for_in_ref:
  assumes "get_prop h a i = VRef b"
  shows "for_in n h fm a path (i # ks) =
       (case functionToString n h fm (VRef b) (path @ bracket i) of None \<Rightarrow> None
        | Some (h', fm', v) \<Rightarrow> for_in n h' fm' a path ks)"
proof (cases "functionToString n h fm (VRef b) (path @ bracket i)")
  case None
  with assms show ?thesis by (simp add: Let_def bracket_def)
next
  case (Some r)
  obtain h1 fm1 v1 where r: "r = (h1, fm1, v1)" by (cases r)
  from walk_le(1) [OF Some [unfolded r]] have 1: "heap_le h h1" "v1 = VRef b" by simp_all
  from heap_le_get_prop [OF 1(1), of a i] assms have "get_prop h1 a i = VRef b" by simp
  then have "set_prop h1 a i v1 = h1" using 1(2) by (intro set_prop_same) simp_all
  with assms Some r show ?thesis by (simp add: Let_def bracket_def)
qed

lemma for_in_null:
  assumes "get_prop h a i = VNull"
  shows "for_in n h fm a path (i # ks) = (if n = 0 then None else for_in n h fm a path ks)"
proof (cases n)
  case 0
  with assms show ?thesis by (simp add: Let_def)
next
  case (Suc m)
  have "set_prop h a i VNull = h" using assms by (intro set_prop_same) simp_all
  with assms Suc show ?thesis by (simp add: Let_def)
qed

lemma for_in_other:
  assumes "\<forall>s. get_prop h a i \<noteq> VFun s" "\<forall>b. get_prop h a i \<noteq> VRef b" "get_prop h a i \<noteq> VNull"
  shows "for_in n h fm a path (i # ks) = for_in n h fm a path ks"
  using assms by (cases "get_prop h a i") (simp_all add: Let_def)

lemma walk_induct [case_names Zero Obj Other Done Fun Ref Null Null0 Skip]:
  assumes Z: "\<And>h fm ob entry. P 0 h fm ob entry"
    and O: "\<And>n h fm a entry. Q n h fm a entry (keys_of h a) \<Longrightarrow> P (Suc n) h fm (VRef a) entry"
    and X: "\<And>n h fm ob entry. \<forall>a. ob \<noteq> VRef a \<Longrightarrow> P (Suc n) h fm ob entry"
    and D: "\<And>n h fm a path. Q n h fm a path []"
    and F: "\<And>n h fm a path i ks s. get_prop h a i = VFun s \<Longrightarrow>
              Q n (set_prop h a i (VStr s)) (fm @ [path @ bracket i]) a path ks \<Longrightarrow>
              Q n h fm a path (i # ks)"
    and R: "\<And>n h fm a path i ks b. get_prop h a i = VRef b \<Longrightarrow>
              P n h fm (VRef b) (path @ bracket i) \<Longrightarrow>
              (\<And>h' fm' v. functionToString n h fm (VRef b) (path @ bracket i) = Some (h', fm', v) \<Longrightarrow>
                 Q n h' fm' a path ks) \<Longrightarrow>
              Q n h fm a path (i # ks)"
    and N: "\<And>n h fm a path i ks. get_prop h a i = VNull \<Longrightarrow> Q (Suc n) h fm a path ks \<Longrightarrow>
              Q (Suc n) h fm a path (i # ks)"
    and N0: "\<And>h fm a path i ks. get_prop h a i = VNull \<Longrightarrow> Q 0 h fm a path (i # ks)"
    and S: "\<And>n h fm a path i ks. \<forall>s. get_prop h a i \<noteq> VFun s \<Longrightarrow>
              \<forall>b. get_prop h a i \<noteq> VRef b \<Longrightarrow> get_prop h a i \<noteq> VNull \<Longrightarrow>
              Q n h fm a path ks \<Longrightarrow> Q n h fm a path (i # ks)"
  shows "P n h fm ob entry" and "Q n h fm a path ks"
proof (induction n h fm ob entry and n h fm a path ks rule: functionToString_for_in.induct)
  case (1 h fm ob entry)
  show ?case by (rule Z)
next
  case (2 n h fm ob entry)
  show ?case
  proof (cases "\<exists>a. ob = VRef a")
    case True
    then obtain a where a: "ob = VRef a" ..
    from O [OF "2.IH" [OF a]] a show ?thesis by simp
  next
    case False
    then show ?thesis by (intro X) simp
  qed
next
  case (3 n h fm a path)
  show ?case by (rule D)
next
  case (4 n h fm a path i ks)
  let ?pathi = "path @ [CHR ''['', CHR 0x22] @ i @ [CHR 0x22, CHR '']'']"
  have p: "?pathi = path @ bracket i" by (simp add: bracket_def)
  show ?case
  proof (cases "get_prop h a i")
    case VUndefined
    from "4.IH"(1) [OF refl VUndefined] VUndefined show ?thesis by (intro S) simp_all
  next
    case VNull
    show ?thesis
    proof (cases n)
      case 0
      with N0 [OF VNull] show ?thesis by simp
    next
      case (Suc m)
      have e: "set_prop h a i VNull = h" by (rule set_prop_same [OF VNull]) simp
      have g: "functionToString n h fm VNull ?pathi = Some (h, fm, VNull)"
        using Suc by simp
      from "4.IH"(3) [OF refl VNull g refl refl] e
      have "Q n h fm a path ks" by simp
      with N [OF VNull, of m fm path ks] Suc show ?thesis by simp
    qed
  next
    case (VBool x)
    from "4.IH"(4) [OF refl VBool] VBool show ?thesis by (intro S) simp_all
  next
    case (VNum x)
    from "4.IH"(5) [OF refl VNum] VNum show ?thesis by (intro S) simp_all
  next
    case (VStr x)
    from "4.IH"(6) [OF refl VStr] VStr show ?thesis by (intro S) simp_all
  next
    case (VFun s)
    from "4.IH"(7) [OF refl VFun] show ?thesis
      unfolding p by (rule F [OF VFun])
  next
    case (VRef b)
    show ?thesis
    proof (rule R [OF VRef])
      show "P n h fm (VRef b) (path @ bracket i)"
        using "4.IH"(8) [OF refl VRef] by (simp add: bracket_def)
    next
      fix h' fm' v
      assume g: "functionToString n h fm (VRef b) (path @ bracket i) = Some (h', fm', v)"
      from walk_le(1) [OF g] have 1: "heap_le h h'" "v = VRef b" by simp_all
      from heap_le_get_prop [OF 1(1), of a i] VRef have "get_prop h' a i = VRef b" by simp
      then have "set_prop h' a i v = h'" using 1(2) by (intro set_prop_same) simp_all
      with "4.IH"(9) [OF refl VRef g [folded p] refl refl] show "Q n h' fm' a path ks" by simp
    qed
  qed
qed

lemma heap_le_edges: "heap_le h h' \<Longrightarrow> edges h' = edges h"
  using heap_le_get_prop [of h h'] heap_le_keys [of h h']
  by (auto simp add: edges_def) (metis val_le_ref)+

lemma heap_le_reach: "heap_le h h' \<Longrightarrow> reach h' a = reach h a"
  by (simp add: reach_def heap_le_edges)

lemma heap_le_clean: "heap_le h h' \<Longrightarrow> clean h a \<Longrightarrow> clean h' a"
  using heap_le_get_prop [of h h' a] heap_le_keys [of h h' a]
  by (auto simp add: clean_def) (metis val_le_fun)

lemma heap_le_converted:
  assumes "heap_le h h'" "converted h a k"
  shows "converted h' a k"
proof -
  note v = heap_le_get_prop [OF assms(1), of a k]
  have "\<forall>s. get_prop h' a k \<noteq> VFun s"
    using v assms(2) by (auto simp add: converted_def)
  moreover have "\<forall>c\<in>reach h' b. clean h' c" if "get_prop h' a k = VRef b" for b
  proof -
    from v that have "get_prop h a k = VRef b" by simp
    with assms(2) have "\<forall>c\<in>reach h b. clean h c" by (simp add: converted_def)
    then show ?thesis
      using heap_le_reach [OF assms(1)] heap_le_clean [OF assms(1)] by auto
  qed
  ultimately show ?thesis by (simp add: converted_def)
qed

lemma reach_cases:
  assumes "c \<in> reach h a"
  shows "c = a \<or> (\<exists>b. (a, b) \<in> edges h \<and> c \<in> reach h b)"
proof -
  from assms have "(a, c) \<in> (edges h)\<^sup>*" by (simp add: reach_def)
  then show ?thesis
    by (cases rule: converse_rtranclE) (auto simp add: reach_def)
qed

lemma converted_all_clean:
  assumes "\<forall>k\<in>set (keys_of h a). converted h a k"
  shows "\<forall>c\<in>reach h a. clean h c"
proof
  fix c assume "c \<in> reach h a"
  from reach_cases [OF this] show "clean h c"
  proof (elim disjE exE conjE)
    assume "c = a"
    with assms show ?thesis by (simp add: clean_def converted_def)
  next
    fix b assume "(a, b) \<in> edges h" "c \<in> reach h b"
    with assms show ?thesis by (auto simp add: edges_def converted_def)
  qed
qed

lemma get_prop_set_prop:
  "a < length h \<Longrightarrow> get_prop (set_prop h a i v) a i = v"
  by (simp add: get_prop_def set_prop_def object_at_def update_conv')

lemma get_prop_defined: "get_prop h a i \<noteq> VUndefined \<Longrightarrow> a < length h"
  by (auto simp add: get_prop_def object_at_def split: if_splits)

lemma lookup_le_fun:
  "heap_le h h' \<Longrightarrow> lookup_path h' v ks = Some (VFun s) \<Longrightarrow> lookup_path h v ks = Some (VFun s)"
proof (induction h v ks rule: lookup_path.induct)
  case (2 h a k ks)
  note v = heap_le_get_prop [OF "2.prems"(1), of a k]
  show ?case
  proof (cases ks)
    case Nil
    with "2.prems" v show ?thesis by simp
  next
    case (Cons k' ks')
    with "2.prems"(2) obtain b where "get_prop h' a k = VRef b"
      by (cases "get_prop h' a k") simp_all
    with v have "get_prop h a k = get_prop h' a k" by simp
    with "2.IH" [OF "2.prems"(1)] "2.prems"(2) show ?thesis by simp
  qed
qed simp_all

lemma lookup_le_str:
  "heap_le h h' \<Longrightarrow> lookup_path h v ks = Some (VStr s) \<Longrightarrow> lookup_path h' v ks = Some (VStr s)"
proof (induction h v ks rule: lookup_path.induct)
  case (2 h a k ks)
  note v = heap_le_get_prop [OF "2.prems"(1), of a k]
  show ?case
  proof (cases ks)
    case Nil
    with "2.prems" v show ?thesis by simp
  next
    case (Cons k' ks')
    with "2.prems"(2) obtain b where "get_prop h a k = VRef b"
      by (cases "get_prop h a k") simp_all
    with v have "get_prop h' a k = get_prop h a k" by simp
    with "2.IH" [OF "2.prems"(1)] "2.prems"(2) show ?thesis by simp
  qed
qed simp_all
declare functionToString.simps(2) [simp del] for_in.simps(2) [simp del]

lemma walk_more_stack:
  "\<forall>r. functionToString n h fm ob entry = Some r \<longrightarrow> functionToString (Suc n) h fm ob entry = Some r"
  "\<forall>r. for_in n h fm a path ks = Some r \<longrightarrow> for_in (Suc n) h fm a path ks = Some r"
proof (induction n h fm ob entry and n h fm a path ks rule: walk_induct)
  case (Zero h fm ob entry)
  then show ?case by simp
next
  case (Obj n h fm a entry)
  then show ?case by (auto simp add: functionToString_simps split: option.splits)
next
  case (Other n h fm ob entry)
  then show ?case by (simp add: functionToString_simps)
next
  case (Done n h fm a path)
  then show ?case by simp
next
  case (Fun n h fm a path i ks s)
  then show ?case by (simp add: for_in_fun)
next
  case (Ref n h fm a path i ks b)
  show ?case
  proof (intro allI impI)
    fix r assume r: "for_in n h fm a path (i # ks) = Some r"
    then obtain h1 fm1 v1 where g: "functionToString n h fm (VRef b) (path @ bracket i) = Some (h1, fm1, v1)"
      and f: "for_in n h1 fm1 a path ks = Some r"
      by (auto simp add: for_in_ref [OF Ref.hyps] split: option.splits)
    from Ref.IH(1) g have "functionToString (Suc n) h fm (VRef b) (path @ bracket i) = Some (h1, fm1, v1)"
      by blast
    moreover from Ref.IH(2) [OF g] f have "for_in (Suc n) h1 fm1 a path ks = Some r" by blast
    ultimately show "for_in (Suc n) h fm a path (i # ks) = Some r"
      by (simp add: for_in_ref [OF Ref.hyps])
  qed
next
  case (Null n h fm a path i ks)
  then show ?case by (simp add: for_in_null)
next
  case (Null0 h fm a path i ks)
  then show ?case by (simp add: for_in_null)
next
  case (Skip n h fm a path i ks)
  then show ?case by (simp add: for_in_other)
qed

lemma functionToString_stack_mono:
  assumes "functionToString n h fm ob entry = Some r" "n \<le> m"
  shows "functionToString m h fm ob entry = Some r"
proof -
  have "functionToString (n + k) h fm ob entry = Some r" for k
  proof (induction k)
    case 0
    with assms(1) show ?case by simp
  next
    case (Suc k)
    with walk_more_stack(1) [of "n + k" h fm ob entry] show ?case by simp
  qed
  from this [of "m - n"] assms(2) show ?thesis by simp
qed

lemma walk_converts:
  "\<forall>h' fm' v a. functionToString n h fm ob entry = Some (h', fm', v) \<longrightarrow> ob = VRef a \<longrightarrow>
      (\<forall>c\<in>reach h' a. clean h' c)"
  "\<forall>h' fm'. for_in n h fm a path ks = Some (h', fm') \<longrightarrow> (\<forall>k\<in>set ks. converted h' a k)"
proof (induction n h fm ob entry and n h fm a path ks rule: walk_induct)
  case (Zero h fm ob entry)
  then show ?case by simp
next
  case (Obj n h fm a entry)
  show ?case
  proof (intro allI impI)
    fix h' fm' v a'
    assume r: "functionToString (Suc n) h fm (VRef a) entry = Some (h', fm', v)" and a: "VRef a = VRef a'"
    from r have f: "for_in n h fm a entry (keys_of h a) = Some (h', fm')"
      by (auto simp add: functionToString_simps split: option.splits)
    from walk_le(2) [OF f] have "keys_of h' a = keys_of h a" by (simp add: heap_le_keys)
    with Obj.IH f have "\<forall>k\<in>set (keys_of h' a). converted h' a k" by auto
    from converted_all_clean [OF this] a show "\<forall>c\<in>reach h' a'. clean h' c" by simp
  qed
next
  case (Other n h fm ob entry)
  then show ?case by simp
next
  case (Done n h fm a path)
  then show ?case by simp
next
  case (Fun n h fm a path i ks s)
  show ?case
  proof (intro allI impI)
    fix h' fm' assume r: "for_in n h fm a path (i # ks) = Some (h', fm')"
    let ?h1 = "set_prop h a i (VStr s)"
    from r have f: "for_in n ?h1 (fm @ [path @ bracket i]) a path ks = Some (h', fm')"
      by (simp add: for_in_fun [OF Fun.hyps])
    from Fun.hyps have "a < length h" by (intro get_prop_defined [of h a i]) simp
    then have "converted ?h1 a i" by (simp add: converted_def get_prop_set_prop)
    from heap_le_converted [OF _ this] walk_le(2) [OF f] have "converted h' a i" by simp
    with Fun.IH f show "\<forall>k\<in>set (i # ks). converted h' a k" by auto
  qed
next
  case (Ref n h fm a path i ks b)
  show ?case
  proof (intro allI impI)
    fix h' fm' assume r: "for_in n h fm a path (i # ks) = Some (h', fm')"
    then obtain h1 fm1 v1 where g: "functionToString n h fm (VRef b) (path @ bracket i) = Some (h1, fm1, v1)"
      and f: "for_in n h1 fm1 a path ks = Some (h', fm')"
      by (auto simp add: for_in_ref [OF Ref.hyps] split: option.splits)
    from Ref.IH(1) g have c: "\<forall>c\<in>reach h1 b. clean h1 c" by blast
    from heap_le_get_prop [of h h1 a i] walk_le(1) [OF g] Ref.hyps
    have "get_prop h1 a i = VRef b" by simp
    with c have "converted h1 a i" by (simp add: converted_def)
    from heap_le_converted [OF _ this] walk_le(2) [OF f] have "converted h' a i" by simp
    with Ref.IH(2) [OF g] f show "\<forall>k\<in>set (i # ks). converted h' a k" by auto
  qed
next
  case (Null n h fm a path i ks)
  show ?case
  proof (intro allI impI)
    fix h' fm' assume r: "for_in (Suc n) h fm a path (i # ks) = Some (h', fm')"
    then have f: "for_in (Suc n) h fm a path ks = Some (h', fm')"
      by (simp add: for_in_null [OF Null.hyps])
    from Null.hyps have "converted h a i" by (simp add: converted_def)
    from heap_le_converted [OF _ this] walk_le(2) [OF f] have "converted h' a i" by simp
    with Null.IH f show "\<forall>k\<in>set (i # ks). converted h' a k" by auto
  qed
next
  case (Null0 h fm a path i ks)
  then show ?case by (simp add: for_in_null)
next
  case (Skip n h fm a path i ks)
  show ?case
  proof (intro allI impI)
    fix h' fm' assume r: "for_in n h fm a path (i # ks) = Some (h', fm')"
    then have f: "for_in n h fm a path ks = Some (h', fm')"
      by (simp add: for_in_other [OF Skip.hyps])
    from Skip.hyps have "converted h a i" by (simp add: converted_def)
    from heap_le_converted [OF _ this] walk_le(2) [OF f] have "converted h' a i" by simp
    with Skip.IH f show "\<forall>k\<in>set (i # ks). converted h' a k" by auto
  qed
qed

lemma set_result_fields [simp]:
  "tid (set_result r k) = tid k"
  "requestMessage (set_result r k) = requestMessage k"
  "state (set_result r k) = state k"
  "onProgress (set_result r k) = onProgress k"
  "startTime (set_result r k) = startTime k"
  "promise (set_result r k) = promise k"
  "resolve (set_result r k) = resolve k"
  "reject (set_result r k) = reject k"
  "fulfilReactions (promiseObject (set_result r k)) = fulfilReactions (promiseObject k)"
  "rejectReactions (promiseObject (set_result r k)) = rejectReactions (promiseObject k)"
  "(settled (promiseObject (set_result r k)) = Pending) = (settled (promiseObject k) = Pending)"
  by (simp_all add: set_result_def split: settlement.splits)

lemma perform_fields [simp]:
  "runningTask (perform env j w) = runningTask w"
  "queuedTaskList (perform env j w) = queuedTaskList w"
  "verboseLogging (perform env j w) = verboseLogging w"
  "heap (perform env j w) = heap w"
  "posted (perform env j w) = posted w"
  "timeouts (perform env j w) = timeouts w"
  "jobs (perform env j w) = jobs w"
  "length (taskList (perform env j w)) = length (taskList w)"
  by (simp_all add: perform_def Let_def
      split: job.splits callback.splits option.splits settlement.splits)

lemma perform_task [simp]:
  "tid (taskList (perform env j w) ! i) =
     tid (taskList w ! i)"
  "requestMessage (taskList (perform env j w) ! i) =
     requestMessage (taskList w ! i)"
  "state (taskList (perform env j w) ! i) =
     state (taskList w ! i)"
  "onProgress (taskList (perform env j w) ! i) =
     onProgress (taskList w ! i)"
  "startTime (taskList (perform env j w) ! i) =
     startTime (taskList w ! i)"
  "promise (taskList (perform env j w) ! i) =
     promise (taskList w ! i)"
  "resolve (taskList (perform env j w) ! i) =
     resolve (taskList w ! i)"
  "reject (taskList (perform env j w) ! i) =
     reject (taskList w ! i)"
  "fulfilReactions (promiseObject (taskList (perform env j w) ! i)) =
     fulfilReactions (promiseObject (taskList w ! i))"
  "rejectReactions (promiseObject (taskList (perform env j w) ! i)) =
     rejectReactions (promiseObject (taskList w ! i))"
  "(settled (promiseObject (taskList (perform env j w) ! i)) = Pending) =
     (settled (promiseObject (taskList w ! i)) = Pending)"
  by (simp_all add: perform_def Let_def nth_update_pres
      nth_update_pres [where f = "\<lambda>k. fulfilReactions (promiseObject k)"]
      nth_update_pres [where f = "\<lambda>k. rejectReactions (promiseObject k)"]
      nth_update_pres [where f = "\<lambda>k. settled (promiseObject k) = Pending"]
      split: job.splits callback.splits option.splits settlement.splits)

lemma fold_perform_fields [simp]:
  "runningTask (fold (perform env) js w) = runningTask w"
  "queuedTaskList (fold (perform env) js w) = queuedTaskList w"
  "verboseLogging (fold (perform env) js w) = verboseLogging w"
  "heap (fold (perform env) js w) = heap w"
  "posted (fold (perform env) js w) = posted w"
  "timeouts (fold (perform env) js w) = timeouts w"
  "jobs (fold (perform env) js w) = jobs w"
  "length (taskList (fold (perform env) js w)) = length (taskList w)"
  by (induction js arbitrary: w; simp)+

lemma fold_perform_task [simp]:
  "tid (taskList (fold (perform env) js w) ! i) =
     tid (taskList w ! i)"
  "requestMessage (taskList (fold (perform env) js w) ! i) =
     requestMessage (taskList w ! i)"
  "state (taskList (fold (perform env) js w) ! i) =
     state (taskList w ! i)"
  "onProgress (taskList (fold (perform env) js w) ! i) =
     onProgress (taskList w ! i)"
  "startTime (taskList (fold (perform env) js w) ! i) =
     startTime (taskList w ! i)"
  "promise (taskList (fold (perform env) js w) ! i) =
     promise (taskList w ! i)"
  "resolve (taskList (fold (perform env) js w) ! i) =
     resolve (taskList w ! i)"
  "reject (taskList (fold (perform env) js w) ! i) =
     reject (taskList w ! i)"
  "fulfilReactions (promiseObject (taskList (fold (perform env) js w) ! i)) =
     fulfilReactions (promiseObject (taskList w ! i))"
  "rejectReactions (promiseObject (taskList (fold (perform env) js w) ! i)) =
     rejectReactions (promiseObject (taskList w ! i))"
  "(settled (promiseObject (taskList (fold (perform env) js w) ! i)) = Pending) =
     (settled (promiseObject (taskList w ! i)) = Pending)"
  by (induction js arbitrary: w; simp)+

lemma run_jobs_fields [simp]:
  "runningTask (run_jobs env w) = runningTask w"
  "queuedTaskList (run_jobs env w) = queuedTaskList w"
  "verboseLogging (run_jobs env w) = verboseLogging w"
  "heap (run_jobs env w) = heap w"
  "posted (run_jobs env w) = posted w"
  "timeouts (run_jobs env w) = timeouts w"
  "jobs (run_jobs env w) = []"
  "length (taskList (run_jobs env w)) = length (taskList w)"
  by (simp_all add: run_jobs_def)

lemma run_jobs_task [simp]:
  "tid (taskList (run_jobs env w) ! i) =
     tid (taskList w ! i)"
  "requestMessage (taskList (run_jobs env w) ! i) =
     requestMessage (taskList w ! i)"
  "state (taskList (run_jobs env w) ! i) =
     state (taskList w ! i)"
  "onProgress (taskList (run_jobs env w) ! i) =
     onProgress (taskList w ! i)"
  "startTime (taskList (run_jobs env w) ! i) =
     startTime (taskList w ! i)"
  "promise (taskList (run_jobs env w) ! i) =
     promise (taskList w ! i)"
  "resolve (taskList (run_jobs env w) ! i) =
     resolve (taskList w ! i)"
  "reject (taskList (run_jobs env w) ! i) =
     reject (taskList w ! i)"
  "fulfilReactions (promiseObject (taskList (run_jobs env w) ! i)) =
     fulfilReactions (promiseObject (taskList w ! i))"
  "rejectReactions (promiseObject (taskList (run_jobs env w) ! i)) =
     rejectReactions (promiseObject (taskList w ! i))"
  "(settled (promiseObject (taskList (run_jobs env w) ! i)) = Pending) =
     (settled (promiseObject (taskList w ! i)) = Pending)"
  by (simp_all add: run_jobs_def)

lemma run_jobs_idle: "jobs w = [] \<Longrightarrow> run_jobs env w = w"
  by (simp add: run_jobs_def)

lemma task_inv_similar:
  assumes "tid (taskList w' ! i) = tid (taskList w ! i)"
    "requestMessage (taskList w' ! i) = requestMessage (taskList w ! i)"
    "state (taskList w' ! i) = state (taskList w ! i)"
    "(settled (promiseObject (taskList w' ! i)) = Pending) =
       (settled (promiseObject (taskList w ! i)) = Pending)"
    "promise (taskList w' ! i) = promise (taskList w ! i)"
    "resolve (taskList w' ! i) = resolve (taskList w ! i)"
    "reject (taskList w' ! i) = reject (taskList w ! i)"
    "runningTask w' = runningTask w" "queuedTaskList w' = queuedTaskList w"
    "posted w' = posted w" "timeouts w' = timeouts w"
  shows "task_inv w' i = task_inv w i"
  by (simp add: task_inv_def Let_def assms)

lemma reader_inv_similar:
  assumes "length (taskList w') = length (taskList w)"
    "\<And>i. tid (taskList w' ! i) = tid (taskList w ! i)"
    "\<And>i. requestMessage (taskList w' ! i) = requestMessage (taskList w ! i)"
    "\<And>i. state (taskList w' ! i) = state (taskList w ! i)"
    "\<And>i. (settled (promiseObject (taskList w' ! i)) = Pending) =
       (settled (promiseObject (taskList w ! i)) = Pending)"
    "\<And>i. promise (taskList w' ! i) = promise (taskList w ! i)"
    "\<And>i. resolve (taskList w' ! i) = resolve (taskList w ! i)"
    "\<And>i. reject (taskList w' ! i) = reject (taskList w ! i)"
    "runningTask w' = runningTask w" "queuedTaskList w' = queuedTaskList w"
    "posted w' = posted w" "timeouts w' = timeouts w"
  shows "reader_inv w' = reader_inv w"
proof -
  have "task_inv w' i = task_inv w i" for i
    by (rule task_inv_similar) (simp_all add: assms)
  then show ?thesis
    by (simp add: reader_inv_def sched_inv_def assms)
qed

lemma run_jobs_inv: "reader_inv (run_jobs env w) = reader_inv w"
  by (rule reader_inv_similar) simp_all

lemma prepared_refl [simp]: "prepared w w"
  by (simp add: prepared_def)

lemma prepared_upd [simp]:
  "prepared w (w\<lparr>heap := h\<rparr>)"
  "prepared w (w\<lparr>verboseLogging := v\<rparr>)"
  "prepared w (w\<lparr>loadedFile := None, lineCount := lc\<rparr>)"
  "prepared w (w\<lparr>loadedFile := None, lineCount := lc, heap := h\<rparr>)"
  by (simp_all add: prepared_def)

lemma created_newTask:
  "prepared w w0 \<Longrightarrow> created now w (snd (newTask now act d w0))"
  unfolding created_def by blast

lemma created_then:
  "prepared w w0 \<Longrightarrow> t = length (taskList w) \<Longrightarrow>
     (\<forall>f. cb = LoadFileThen f \<longrightarrow> act = ''loadFile'') \<Longrightarrow>
     created now w (task_then t cb (snd (newTask now act d w0)))"
  unfolding created_def by blast

lemma invoke_shape:
  assumes "invoke stack env now c w = (r, w')"
  shows "(\<exists>e. r = Inl e \<and> prepared w w') \<or> (r = Inr (length (taskList w)) \<and> created now w w')"
proof (cases c)
  case (SniffLines f n d)
  with assms show ?thesis
    by (auto simp add: sniffLines_def case_prod_unfold intro!: created_newTask)
next
  case (LoadFile f config)
  let ?w0 = "w\<lparr>loadedFile := None, lineCount := MNum (Finite 0)\<rparr>"
  from LoadFile assms show ?thesis
    by (auto simp add: loadFile_def Let_def case_prod_unfold split: if_splits prod.splits sum.splits
        intro!: created_then)
next
  case (SetChunkSize n)
  with assms show ?thesis
    by (auto simp add: setChunkSize_def case_prod_unfold intro!: created_newTask)
next
  case EnableVerbose
  with assms show ?thesis
    by (auto simp add: enableVerbose_def case_prod_unfold intro!: created_newTask)
next
  case (GetLines2 x d)
  with assms show ?thesis
    by (auto simp add: getLines2_def case_prod_unfold split: if_splits
        intro!: created_newTask created_then)
next
  case (GetLines s n d)
  with assms show ?thesis
    by (auto simp add: getLines_def case_prod_unfold split: if_splits
        intro!: created_newTask created_then)
next
  case (GetSporadicLines x d)
  with assms show ?thesis
    by (auto simp add: getSporadicLines_def case_prod_unfold intro!: created_newTask)
next
  case (IterateLines config s n)
  with assms show ?thesis
    by (auto simp add: iterateLines_def Let_def case_prod_unfold split: if_splits prod.splits sum.splits
        intro!: created_newTask)
next
  case (IterateSporadicLines config x)
  with assms show ?thesis
    by (auto simp add: iterateSporadicLines_def Let_def case_prod_unfold split: if_splits prod.splits sum.splits
        intro!: created_newTask)
qed

lemma prepared_inv: "prepared w w0 \<Longrightarrow> reader_inv w0 = reader_inv w"
  by (rule reader_inv_cong) (simp_all add: prepared_def)

lemma created_inv:
  assumes "reader_inv w" "created now w w'"
  shows "reader_inv w'"
proof -
  from assms(2) obtain w0 act d where p: "prepared w w0"
    and c: "w' = snd (newTask now act d w0) \<or>
         (\<exists>cb. w' = task_then (length (taskList w)) cb (snd (newTask now act d w0)))"
    unfolding created_def by blast
  from p assms(1) have "reader_inv w0" by (simp add: prepared_inv)
  then have N: "reader_inv (snd (newTask now act d w0))" by (rule newTask_reader_inv)
  from p have "length (taskList w) < length (taskList (snd (newTask now act d w0)))"
    by (simp add: prepared_def)
  from task_then_inv [OF N this] N c show ?thesis by auto
qed

lemma invoke_inv:
  assumes "reader_inv w"
  shows "reader_inv (snd (invoke stack env now c w))"
  using invoke_shape [of stack env now c w "fst (invoke stack env now c w)" "snd (invoke stack env now c w)"]
    created_inv [OF assms] prepared_inv assms
  by auto

lemma handle_inv:
  assumes "reader_inv w"
  shows "reader_inv (handle stack env now e w)"
  using assms
  by (cases e) (simp_all add: invoke_inv on_message_inv on_timeout_inv task_then_inv
      task_catch_inv task_progress_inv)

lemma step_inv: "reader_inv w \<Longrightarrow> reader_inv (step stack env e w)"
  by (simp add: step_def run_jobs_inv handle_inv)

lemma exec_inv: "reader_inv w \<Longrightarrow> reader_inv (exec stack env tr w)"
  by (induction tr arbitrary: w) (simp_all add: step_inv)

lemma new_TxtReader_inv: "reader_inv (new_TxtReader h)"
  by (simp add: reader_inv_def sched_inv_def new_TxtReader_def)

lemma reachable_inv: "reader_inv (exec stack env tr (new_TxtReader h))"
  by (rule exec_inv [OF new_TxtReader_inv])

lemma step_jobs [simp]: "jobs (step stack env e w) = []"
  by (simp add: step_def)

lemma exec_jobs: "jobs w = [] \<Longrightarrow> jobs (exec stack env tr w) = []"
  by (induction tr arbitrary: w) simp_all

lemma reachable_jobs: "jobs (exec stack env tr (new_TxtReader h)) = []"
  by (rule exec_jobs) (simp add: new_TxtReader_def)

lemma sched_inv_tids:
  assumes "sched_inv w"
  shows "map tid (taskList w) = [1..<Suc (length (taskList w))]"
    "map (\<lambda>k. taskId (requestMessage k)) (taskList w) = map Some [1..<Suc (length (taskList w))]"
  using task_inv_ids [OF sched_inv_task [OF assms]]
  by (auto intro!: nth_equalityI simp del: upt_Suc)

lemma created_taskList:
  assumes "reader_inv w" "created now w w'"
  shows "taskList w' = taskList w @ [taskList w' ! length (taskList w)]"
proof -
  from assms(2) obtain w0 act d where p: "prepared w w0"
    and c: "w' = snd (newTask now act d w0) \<or>
         (\<exists>cb. w' = task_then (length (taskList w)) cb (snd (newTask now act d w0)))"
    unfolding created_def by blast
  let ?n = "snd (newTask now act d w0)"
  from p have l: "taskList w0 = taskList w" by (simp add: prepared_def)
  from p assms(1) have "reader_inv w0" by (simp add: prepared_inv)
  then have "reader_inv ?n" by (rule newTask_reader_inv)
  then have S: "sched_inv ?n" by (simp add: reader_inv_def)
  have L: "length (taskList w) < length (taskList ?n)" by (simp add: l)
  have N: "taskList ?n = taskList w @ [taskList ?n ! length (taskList w)]"
    by (simp add: l)
  have T: "taskList (task_then (length (taskList w)) cb ?n) =
      taskList w @ [taskList (task_then (length (taskList w)) cb ?n) ! length (taskList w)]" for cb
    by (simp add: task_then_eq [OF S L] l)
  from c N T show ?thesis by auto
qed

lemma reachable_tids:
  "map tid (taskList (exec stack env tr (new_TxtReader h))) =
     [1..<Suc (length (taskList (exec stack env tr (new_TxtReader h))))]"
  "map (\<lambda>k. taskId (requestMessage k)) (taskList (exec stack env tr (new_TxtReader h))) =
     map Some [1..<Suc (length (taskList (exec stack env tr (new_TxtReader h))))]"
  using sched_inv_tids [of "exec stack env tr (new_TxtReader h)"] reachable_inv [of stack env tr h]
  by (simp_all add: reader_inv_def)

lemma invoke_new_task:
  assumes I: "reader_inv w"
  shows "case invoke stack env now c w of
       (Inr t, w') \<Rightarrow>
         t = length (taskList w) \<and> taskList w' = taskList w @ [taskList w' ! t] \<and>
         tid (taskList w' ! t) = Suc (length (taskList w)) \<and>
         taskId (requestMessage (taskList w' ! t)) = Some (Suc (length (taskList w)))
     | (Inl e, w') \<Rightarrow> taskList w' = taskList w"
proof (cases "invoke stack env now c w")
  case (Pair r w')
  show ?thesis
  proof (cases r)
    case (Inl e)
    with Pair invoke_shape [OF Pair] show ?thesis by (simp add: prepared_def)
  next
    case (Inr t)
    with invoke_shape [OF Pair] have t: "t = length (taskList w)" and c: "created now w w'"
      by simp_all
    note L = created_taskList [OF I c]
    from created_inv [OF I c] have S: "sched_inv w'" by (simp add: reader_inv_def)
    have "length (taskList w) < length (taskList w')" by (subst L) simp
    from task_inv_ids [OF sched_inv_task [OF S this]] L t Pair Inr
    show ?thesis by simp
  qed
qed

lemma on_message_running:
  assumes I: "reader_inv w" and r: "runningTask w = Some r"
  shows "fst (on_message now response w) \<noteq> None \<longleftrightarrow>
           resp_taskId response \<noteq> tid (taskList w ! r) \<or>
           (\<not> resp_done response \<and> \<not> valid_progress (resp_result response))"
    and "fst (on_message now response w) \<noteq> None \<Longrightarrow> snd (on_message now response w) = w"
    and "resp_taskId response = tid (taskList w ! r) \<Longrightarrow> \<not> resp_done response \<Longrightarrow>
           valid_progress (resp_result response) \<Longrightarrow>
           fst (on_message now response w) = None \<and>
           snd (on_message now response w) =
             w\<lparr>observed := observed w @ progress_calls w r (resp_result response)\<rparr>"
proof -
  note C = completeTask_inv(1) [OF I, of now response]
  show "fst (on_message now response w) \<noteq> None \<longleftrightarrow>
           resp_taskId response \<noteq> tid (taskList w ! r) \<or>
           (\<not> resp_done response \<and> \<not> valid_progress (resp_result response))"
    using r C by (simp add: on_message_def valid_progress_def split: msgval.splits)
  show "fst (on_message now response w) \<noteq> None \<Longrightarrow> snd (on_message now response w) = w"
    using r C by (simp add: on_message_def split: msgval.splits if_splits)
  show "resp_taskId response = tid (taskList w ! r) \<Longrightarrow> \<not> resp_done response \<Longrightarrow>
           valid_progress (resp_result response) \<Longrightarrow>
           fst (on_message now response w) = None \<and>
           snd (on_message now response w) =
             w\<lparr>observed := observed w @ progress_calls w r (resp_result response)\<rparr>"
    using r by (auto simp add: on_message_def valid_progress_def progress_calls_def updateProgress_def
        split: msgval.splits option.splits)
qed

lemma runNextTask_taskList:
  "taskList (runNextTask now w) =
     (case queuedTaskList w of [] \<Rightarrow> taskList w
      | t # q \<Rightarrow> (taskList w)[t := run now (taskList w ! t)])"
  by (simp add: runNextTask_def split: list.splits)

lemma runNextTask_other:
  assumes "r \<notin> set (queuedTaskList w)"
  shows "taskList (runNextTask now w) ! r = taskList w ! r"
  using assms by (auto simp add: runNextTask_taskList split: list.splits)

lemma running_not_queued:
  assumes "sched_inv w" "runningTask w = Some r"
  shows "r \<notin> set (queuedTaskList w)"
  using sched_inv_task [OF assms(1) sched_inv_running(1) [OF assms]] assms(2)
  by (auto simp add: task_inv_def Let_def)

lemma completeTask_settles:
  assumes I: "reader_inv w" and r: "runningTask w = Some r"
  shows "taskList (snd (completeTask now response w)) ! r = settle_task now response (taskList w ! r)"
    and "fst (completeTask now response w) = None"
proof -
  from I have S: "sched_inv w" by (simp add: reader_inv_def)
  note R = sched_inv_running [OF S r]
  have q: "r \<notin> set (queuedTaskList (finish now response r w))"
    using running_not_queued [OF S r] by simp
  show "taskList (snd (completeTask now response w)) ! r = settle_task now response (taskList w ! r)"
    using R(1) by (simp add: completeTask_eq [OF S r] runNextTask_other [OF q])
  show "fst (completeTask now response w) = None"
    by (simp add: completeTask_eq [OF S r])
qed

lemma on_message_terminal:
  assumes "runningTask w = Some r" "resp_taskId response = tid (taskList w ! r)" "resp_done response"
  shows "on_message now response w = completeTask now response w"
  using assms by (simp add: on_message_def)

lemma task_then_fields [simp]:
  "runningTask (task_then t cb w) = runningTask w"
  "queuedTaskList (task_then t cb w) = queuedTaskList w"
  "verboseLogging (task_then t cb w) = verboseLogging w"
  "lineCount (task_then t cb w) = lineCount w"
  "loadedFile (task_then t cb w) = loadedFile w"
  "heap (task_then t cb w) = heap w"
  "posted (task_then t cb w) = posted w"
  "timeouts (task_then t cb w) = timeouts w"
  "observed (task_then t cb w) = observed w"
  "length (taskList (task_then t cb w)) = length (taskList w)"
  by (simp_all add: task_then_def Let_def split: settlement.splits)

lemma task_then_task [simp]:
  "tid (taskList (task_then t cb w) ! i) = tid (taskList w ! i)"
  "requestMessage (taskList (task_then t cb w) ! i) = requestMessage (taskList w ! i)"
  "state (taskList (task_then t cb w) ! i) = state (taskList w ! i)"
  "settled (promiseObject (taskList (task_then t cb w) ! i)) = settled (promiseObject (taskList w ! i))"
  "onProgress (taskList (task_then t cb w) ! i) = onProgress (taskList w ! i)"
  "startTime (taskList (task_then t cb w) ! i) = startTime (taskList w ! i)"
  "promise (taskList (task_then t cb w) ! i) = promise (taskList w ! i)"
  "resolve (taskList (task_then t cb w) ! i) = resolve (taskList w ! i)"
  "reject (taskList (task_then t cb w) ! i) = reject (taskList w ! i)"
  by (simp_all add: task_then_def Let_def nth_update_pres
      nth_update_pres [where f = "\<lambda>k. settled (promiseObject k)"] split: settlement.splits)

lemma task_catch_fields [simp]:
  "runningTask (task_catch t cb w) = runningTask w"
  "queuedTaskList (task_catch t cb w) = queuedTaskList w"
  "verboseLogging (task_catch t cb w) = verboseLogging w"
  "lineCount (task_catch t cb w) = lineCount w"
  "loadedFile (task_catch t cb w) = loadedFile w"
  "heap (task_catch t cb w) = heap w"
  "posted (task_catch t cb w) = posted w"
  "timeouts (task_catch t cb w) = timeouts w"
  "observed (task_catch t cb w) = observed w"
  "length (taskList (task_catch t cb w)) = length (taskList w)"
  by (simp_all add: task_catch_def Let_def split: settlement.splits)

lemma task_catch_task [simp]:
  "tid (taskList (task_catch t cb w) ! i) = tid (taskList w ! i)"
  "requestMessage (taskList (task_catch t cb w) ! i) = requestMessage (taskList w ! i)"
  "state (taskList (task_catch t cb w) ! i) = state (taskList w ! i)"
  "settled (promiseObject (taskList (task_catch t cb w) ! i)) = settled (promiseObject (taskList w ! i))"
  "onProgress (taskList (task_catch t cb w) ! i) = onProgress (taskList w ! i)"
  "startTime (taskList (task_catch t cb w) ! i) = startTime (taskList w ! i)"
  "promise (taskList (task_catch t cb w) ! i) = promise (taskList w ! i)"
  "resolve (taskList (task_catch t cb w) ! i) = resolve (taskList w ! i)"
  "reject (taskList (task_catch t cb w) ! i) = reject (taskList w ! i)"
  by (simp_all add: task_catch_def Let_def nth_update_pres
      nth_update_pres [where f = "\<lambda>k. settled (promiseObject k)"] split: settlement.splits)

lemma task_progress_fields [simp]:
  "runningTask (task_progress t cb w) = runningTask w"
  "queuedTaskList (task_progress t cb w) = queuedTaskList w"
  "verboseLogging (task_progress t cb w) = verboseLogging w"
  "lineCount (task_progress t cb w) = lineCount w"
  "loadedFile (task_progress t cb w) = loadedFile w"
  "heap (task_progress t cb w) = heap w"
  "posted (task_progress t cb w) = posted w"
  "timeouts (task_progress t cb w) = timeouts w"
  "jobs (task_progress t cb w) = jobs w"
  "observed (task_progress t cb w) = observed w"
  "length (taskList (task_progress t cb w)) = length (taskList w)"
  by (simp_all add: task_progress_def)

lemma task_progress_task [simp]:
  "tid (taskList (task_progress t cb w) ! i) = tid (taskList w ! i)"
  "requestMessage (taskList (task_progress t cb w) ! i) = requestMessage (taskList w ! i)"
  "state (taskList (task_progress t cb w) ! i) = state (taskList w ! i)"
  "promiseObject (taskList (task_progress t cb w) ! i) = promiseObject (taskList w ! i)"
  "startTime (taskList (task_progress t cb w) ! i) = startTime (taskList w ! i)"
  "promise (taskList (task_progress t cb w) ! i) = promise (taskList w ! i)"
  "resolve (taskList (task_progress t cb w) ! i) = resolve (taskList w ! i)"
  "reject (taskList (task_progress t cb w) ! i) = reject (taskList w ! i)"
  by (simp_all add: task_progress_def nth_update_pres)

lemma created_sched:
  assumes I: "reader_inv w" and c: "created now w w'"
  shows "runningTask w = None \<Longrightarrow>
           runningTask w' = Some (length (taskList w)) \<and>
           state (taskList w' ! length (taskList w)) = Running \<and>
           queuedTaskList w' = [] \<and>
           posted w' = posted w @ dispatch_post (taskList w' ! length (taskList w)) \<and>
           timeouts w' = timeouts w @ dispatch_timer (length (taskList w)) (taskList w' ! length (taskList w))"
    and "runningTask w \<noteq> None \<Longrightarrow>
           runningTask w' = runningTask w \<and>
           state (taskList w' ! length (taskList w)) = Queued \<and>
           queuedTaskList w' = queuedTaskList w @ [length (taskList w)] \<and>
           posted w' = posted w \<and> timeouts w' = timeouts w"
proof -
  from c obtain w0 act d where p: "prepared w w0"
    and c: "w' = snd (newTask now act d w0) \<or>
         (\<exists>cb. w' = task_then (length (taskList w)) cb (snd (newTask now act d w0)))"
    unfolding created_def by blast
  from I have q: "runningTask w = None \<longrightarrow> queuedTaskList w = []" by (simp add: reader_inv_def)
  from p have e: "taskList w0 = taskList w" "runningTask w0 = runningTask w"
    "queuedTaskList w0 = queuedTaskList w" "posted w0 = posted w" "timeouts w0 = timeouts w"
    by (simp_all add: prepared_def)
  show "runningTask w = None \<Longrightarrow>
           runningTask w' = Some (length (taskList w)) \<and>
           state (taskList w' ! length (taskList w)) = Running \<and>
           queuedTaskList w' = [] \<and>
           posted w' = posted w @ dispatch_post (taskList w' ! length (taskList w)) \<and>
           timeouts w' = timeouts w @ dispatch_timer (length (taskList w)) (taskList w' ! length (taskList w))"
    using c q e by (auto simp add: dispatch_post_def dispatch_timer_def)
  show "runningTask w \<noteq> None \<Longrightarrow>
           runningTask w' = runningTask w \<and>
           state (taskList w' ! length (taskList w)) = Queued \<and>
           queuedTaskList w' = queuedTaskList w @ [length (taskList w)] \<and>
           posted w' = posted w \<and> timeouts w' = timeouts w"
    using c e by auto
qed

lemma runNextTask_fields:
  "runningTask (runNextTask now w) =
     (case queuedTaskList w of [] \<Rightarrow> runningTask w | t # q \<Rightarrow> Some t)"
  "queuedTaskList (runNextTask now w) = tl (queuedTaskList w)"
  "posted (runNextTask now w) =
     (case queuedTaskList w of [] \<Rightarrow> posted w | t # q \<Rightarrow> posted w @ dispatch_post (taskList w ! t))"
  "timeouts (runNextTask now w) =
     (case queuedTaskList w of [] \<Rightarrow> timeouts w
      | t # q \<Rightarrow> timeouts w @ dispatch_timer t (taskList w ! t))"
  "jobs (runNextTask now w) = jobs w"
  "observed (runNextTask now w) = observed w"
  "loadedFile (runNextTask now w) = loadedFile w"
  "lineCount (runNextTask now w) = lineCount w"
  "heap (runNextTask now w) = heap w"
  "verboseLogging (runNextTask now w) = verboseLogging w"
  "length (taskList (runNextTask now w)) = length (taskList w)"
  by (simp_all add: runNextTask_def dispatch_post_def dispatch_timer_def split: list.splits)

lemma completeTask_sched:
  assumes I: "reader_inv w" and r: "runningTask w = Some r"
  shows "state (taskList (snd (completeTask now response w)) ! r) = Completed"
    and "queuedTaskList w = [] \<Longrightarrow>
           runningTask (snd (completeTask now response w)) = None \<and>
           queuedTaskList (snd (completeTask now response w)) = [] \<and>
           posted (snd (completeTask now response w)) = posted w \<and>
           timeouts (snd (completeTask now response w)) = timeouts w"
    and "queuedTaskList w = t # q \<Longrightarrow>
           runningTask (snd (completeTask now response w)) = Some t \<and>
           queuedTaskList (snd (completeTask now response w)) = q \<and>
           state (taskList (snd (completeTask now response w)) ! t) = Running \<and>
           requestMessage (taskList (snd (completeTask now response w)) ! t) =
             requestMessage (taskList w ! t) \<and>
           posted (snd (completeTask now response w)) = posted w @ dispatch_post (taskList w ! t) \<and>
           timeouts (snd (completeTask now response w)) =
             timeouts w @ dispatch_timer t (taskList w ! t)"
proof -
  from I have S: "sched_inv w" by (simp add: reader_inv_def)
  note E = completeTask_eq [OF S r]
  show "state (taskList (snd (completeTask now response w)) ! r) = Completed"
    by (simp add: completeTask_settles(1) [OF I r])
  show "queuedTaskList w = [] \<Longrightarrow>
           runningTask (snd (completeTask now response w)) = None \<and>
           queuedTaskList (snd (completeTask now response w)) = [] \<and>
           posted (snd (completeTask now response w)) = posted w \<and>
           timeouts (snd (completeTask now response w)) = timeouts w"
    by (simp add: E runNextTask_fields)
  assume Q: "queuedTaskList w = t # q"
  from S Q have t: "t < length (taskList w)" by (simp add: sched_inv_def)
  from running_not_queued [OF S r] Q have "r \<noteq> t" by auto
  with Q t show "runningTask (snd (completeTask now response w)) = Some t \<and>
           queuedTaskList (snd (completeTask now response w)) = q \<and>
           state (taskList (snd (completeTask now response w)) ! t) = Running \<and>
           requestMessage (taskList (snd (completeTask now response w)) ! t) =
             requestMessage (taskList w ! t) \<and>
           posted (snd (completeTask now response w)) = posted w @ dispatch_post (taskList w ! t) \<and>
           timeouts (snd (completeTask now response w)) =
             timeouts w @ dispatch_timer t (taskList w ! t)"
    by (simp add: E runNextTask_fields runNextTask_taskList dispatch_post_def dispatch_timer_def)
qed

lemma task_inv_states:
  assumes "task_inv w i"
  shows "(state (taskList w ! i) = Running) = (runningTask w = Some i)"
    and "(state (taskList w ! i) = Queued) = (i \<in> set (queuedTaskList w))"
    and "(requestMessage (taskList w ! i) \<in> set (posted w)) =
         ((state (taskList w ! i) = Running \<or> state (taskList w ! i) = Completed) \<and>
          \<not> is_Error (data (requestMessage (taskList w ! i))))"
    and "i \<in> set (timeouts w) \<Longrightarrow> is_Error (data (requestMessage (taskList w ! i)))"
    and "i \<in> set (timeouts w) \<Longrightarrow>
           state (taskList w ! i) = Running \<or> state (taskList w ! i) = Completed"
    and "state (taskList w ! i) \<noteq> Initialized"
    and "(state (taskList w ! i) = Completed) = (settled (promiseObject (taskList w ! i)) \<noteq> Pending)"
  using assms by (auto simp add: task_inv_def Let_def)

lemma queued_not_posted:
  assumes S: "sched_inv w" and i: "i \<in> set (queuedTaskList w)" and m: "m \<in> set (posted w)"
  shows "taskId m \<noteq> taskId (requestMessage (taskList w ! i))"
proof
  assume e: "taskId m = taskId (requestMessage (taskList w ! i))"
  from S i have il: "i < length (taskList w)" by (simp add: sched_inv_def)
  from S m obtain j where j: "j < length (taskList w)" "m = requestMessage (taskList w ! j)"
    unfolding sched_inv_def by blast
  have "Some (Suc j) = taskId (requestMessage (taskList w ! j))"
    using task_inv_ids(2) [OF sched_inv_task [OF S j(1)]] by simp
  also have "\<dots> = taskId (requestMessage (taskList w ! i))" using e j(2) by simp
  also have "\<dots> = Some (Suc i)"
    using task_inv_ids(2) [OF sched_inv_task [OF S il]] by simp
  finally have "j = i" by simp
  with j m have "requestMessage (taskList w ! i) \<in> set (posted w)" by simp
  with task_inv_states(3) [OF sched_inv_task [OF S il]]
  have "state (taskList w ! i) = Running \<or> state (taskList w ! i) = Completed" by simp
  moreover from task_inv_states(2) [OF sched_inv_task [OF S il]] i
  have "state (taskList w ! i) = Queued" by simp
  ultimately show False by auto
qed

lemma completeTask_task:
  assumes I: "reader_inv w" and i: "i < length (taskList w)"
  shows "length (taskList (snd (completeTask now response w))) = length (taskList w)"
    and "requestMessage (taskList (snd (completeTask now response w)) ! i) =
           requestMessage (taskList w ! i)"
    and "tid (taskList (snd (completeTask now response w)) ! i) = tid (taskList w ! i)"
    and "runningTask w \<noteq> Some i \<Longrightarrow>
           promiseObject (taskList (snd (completeTask now response w)) ! i) =
             promiseObject (taskList w ! i)"
    and "onProgress (taskList (snd (completeTask now response w)) ! i) = onProgress (taskList w ! i)"
proof -
  from I have S: "sched_inv w" by (simp add: reader_inv_def)
  have "length (taskList (snd (completeTask now response w))) = length (taskList w) \<and>
    requestMessage (taskList (snd (completeTask now response w)) ! i) =
           requestMessage (taskList w ! i) \<and>
    tid (taskList (snd (completeTask now response w)) ! i) = tid (taskList w ! i) \<and>
    (runningTask w \<noteq> Some i \<longrightarrow>
           promiseObject (taskList (snd (completeTask now response w)) ! i) =
             promiseObject (taskList w ! i)) \<and>
    onProgress (taskList (snd (completeTask now response w)) ! i) = onProgress (taskList w ! i)"
  proof (cases "runningTask w")
    case None
    then show ?thesis by (simp add: completeTask_def)
  next
    case (Some r)
    show ?thesis
      using Some i
      by (auto simp add: completeTask_eq [OF S Some] runNextTask_taskList runNextTask_fields
          nth_update_pres split: list.splits)
  qed
  then show "length (taskList (snd (completeTask now response w))) = length (taskList w)"
    and "requestMessage (taskList (snd (completeTask now response w)) ! i) =
           requestMessage (taskList w ! i)"
    and "tid (taskList (snd (completeTask now response w)) ! i) = tid (taskList w ! i)"
    and "runningTask w \<noteq> Some i \<Longrightarrow>
           promiseObject (taskList (snd (completeTask now response w)) ! i) =
             promiseObject (taskList w ! i)"
    and "onProgress (taskList (snd (completeTask now response w)) ! i) = onProgress (taskList w ! i)"
    by simp_all
qed

lemma keeps_refl: "i < length (taskList w) \<Longrightarrow> keeps i w w"
  by (simp add: keeps_def)

lemma keeps_trans: "keeps i w w' \<Longrightarrow> keeps i w' w'' \<Longrightarrow> keeps i w w''"
  by (auto simp add: keeps_def)

lemma keeps_same:
  "taskList w' = taskList w \<Longrightarrow> i < length (taskList w) \<Longrightarrow> keeps i w w'"
  by (simp add: keeps_def)

lemma on_message_cases:
  "snd (on_message now response w) = w \<or>
   (\<exists>r n. runningTask w = Some r \<and> snd (on_message now response w) = updateProgress r n w) \<or>
   snd (on_message now response w) = snd (completeTask now response w)"
  by (auto simp add: on_message_def split: option.splits msgval.splits)

lemma on_timeout_cases:
  "snd (on_timeout now w) = w \<or>
   (\<exists>t rest response. timeouts w = t # rest \<and>
      snd (on_timeout now w) = snd (completeTask now response (w\<lparr>timeouts := rest\<rparr>)))"
  by (auto simp add: on_timeout_def Let_def split: list.splits)

lemma completeTask_keeps:
  assumes I: "reader_inv w" and i: "i < length (taskList w)"
  shows "keeps i w (snd (completeTask now response w))"
proof -
  from I have S: "sched_inv w" by (simp add: reader_inv_def)
  have "settled (promiseObject (taskList w ! i)) \<noteq> Pending \<Longrightarrow> runningTask w \<noteq> Some i"
    using sched_inv_running(6) [OF S] by auto
  then show ?thesis
    using completeTask_task [OF I i, of now response] i by (auto simp add: keeps_def)
qed

lemma invoke_old_tasks:
  assumes I: "reader_inv w" and i: "i < length (taskList w)"
  shows "taskList (snd (invoke stack env now c w)) ! i = taskList w ! i"
    and "i < length (taskList (snd (invoke stack env now c w)))"
proof -
  have "\<exists>xs. taskList (snd (invoke stack env now c w)) = taskList w @ xs"
    using invoke_new_task [OF I, of stack env now c]
    by (cases "invoke stack env now c w"; cases "fst (invoke stack env now c w)") auto
  then obtain xs where "taskList (snd (invoke stack env now c w)) = taskList w @ xs" ..
  with i show "taskList (snd (invoke stack env now c w)) ! i = taskList w ! i"
    and "i < length (taskList (snd (invoke stack env now c w)))"
    by (simp_all add: nth_append)
qed

lemma handle_keeps:
  assumes I: "reader_inv w" and i: "i < length (taskList w)"
  shows "keeps i w (handle stack env now e w)"
proof (cases e)
  case (Call c)
  from invoke_old_tasks [OF I i, of stack env now c] Call
  show ?thesis by (simp add: keeps_def)
next
  case (Message response)
  from on_message_cases [of now response w]
  show ?thesis
  proof (elim disjE exE conjE)
    assume "snd (on_message now response w) = w"
    with Message i show ?thesis by (simp add: keeps_refl)
  next
    fix r n assume "snd (on_message now response w) = updateProgress r n w"
    with Message i show ?thesis by (simp add: keeps_same)
  next
    assume "snd (on_message now response w) = snd (completeTask now response w)"
    with Message completeTask_keeps [OF I i] show ?thesis by simp
  qed
next
  case Timeout
  from on_timeout_cases [of now w]
  show ?thesis
  proof (elim disjE exE conjE)
    assume "snd (on_timeout now w) = w"
    with Timeout i show ?thesis by (simp add: keeps_refl)
  next
    fix t rest response
    assume t: "timeouts w = t # rest"
      and e: "snd (on_timeout now w) = snd (completeTask now response (w\<lparr>timeouts := rest\<rparr>))"
    from t have "reader_inv (w\<lparr>timeouts := rest\<rparr>)"
      by (intro reader_inv_timeouts [OF I]) auto
    from completeTask_keeps [OF this, of i now response] i e Timeout
    show ?thesis by (simp add: keeps_def)
  qed
next
  case (Then t k)
  with i show ?thesis by (simp add: keeps_def)
next
  case (Catch t k)
  with i show ?thesis by (simp add: keeps_def)
next
  case (Progress t k)
  with i show ?thesis by (simp add: keeps_def)
qed

lemma reactions_task: "j \<in> set (reactions_of r s p) \<Longrightarrow> job_task j = r"
  by (auto simp add: reactions_of_def split: settlement.splits)

lemma completeTask_observed:
  assumes I: "reader_inv w"
  shows "observed (snd (completeTask now response w)) = observed w"
    and "jobs (snd (completeTask now response w)) =
      jobs w @ (case runningTask w of None \<Rightarrow> []
        | Some r \<Rightarrow> reactions_of r (outcome_of now response (taskList w ! r))
                      (promiseObject (taskList w ! r)))"
proof -
  from I have S: "sched_inv w" by (simp add: reader_inv_def)
  have "observed (snd (completeTask now response w)) = observed w \<and>
    jobs (snd (completeTask now response w)) =
      jobs w @ (case runningTask w of None \<Rightarrow> []
        | Some r \<Rightarrow> reactions_of r (outcome_of now response (taskList w ! r))
                      (promiseObject (taskList w ! r)))"
  proof (cases "runningTask w")
    case None
    then show ?thesis by (simp add: completeTask_def)
  next
    case (Some r)
    then show ?thesis by (simp add: completeTask_eq [OF S Some] runNextTask_fields)
  qed
  then show "observed (snd (completeTask now response w)) = observed w"
    and "jobs (snd (completeTask now response w)) =
      jobs w @ (case runningTask w of None \<Rightarrow> []
        | Some r \<Rightarrow> reactions_of r (outcome_of now response (taskList w ! r))
                      (promiseObject (taskList w ! r)))"
    by simp_all
qed

lemma task_then_jobs:
  assumes "sched_inv w" "t < length (taskList w)"
  shows "jobs (task_then t cb w) = jobs w"
  by (simp add: task_then_eq [OF assms])

lemma task_catch_jobs:
  assumes "sched_inv w" "t < length (taskList w)"
  shows "jobs (task_catch t cb w) = jobs w"
  by (simp add: task_catch_eq [OF assms])

lemma task_then_beyond: "\<not> t < length (taskList w) \<Longrightarrow> taskList (task_then t cb w) = taskList w"
  by (simp add: task_then_def Let_def list_update_beyond split: settlement.splits)

lemma task_catch_beyond: "\<not> t < length (taskList w) \<Longrightarrow> taskList (task_catch t cb w) = taskList w"
  by (simp add: task_catch_def Let_def list_update_beyond split: settlement.splits)

lemma created_observed:
  assumes I: "reader_inv w" and c: "created now w w'"
  shows "observed w' = observed w" "jobs w' = jobs w"
proof -
  from c obtain w0 act d where p: "prepared w w0"
    and c: "w' = snd (newTask now act d w0) \<or>
         (\<exists>cb. w' = task_then (length (taskList w)) cb (snd (newTask now act d w0)))"
    unfolding created_def by blast
  let ?n = "snd (newTask now act d w0)"
  from p have e: "taskList w0 = taskList w" "observed w0 = observed w" "jobs w0 = jobs w"
    by (simp_all add: prepared_def)
  from p I have "reader_inv w0" by (simp add: prepared_inv)
  then have "reader_inv ?n" by (rule newTask_reader_inv)
  then have S: "sched_inv ?n" by (simp add: reader_inv_def)
  have L: "length (taskList w) < length (taskList ?n)" by (simp add: e)
  from c e show "observed w' = observed w" by auto
  from c e task_then_jobs [OF S L] show "jobs w' = jobs w" by auto
qed

lemma invoke_jobs:
  assumes I: "reader_inv w"
  shows "jobs (snd (invoke stack env now c w)) = jobs w"
    and "observed (snd (invoke stack env now c w)) = observed w"
proof -
  obtain r w' where c: "invoke stack env now c w = (r, w')" by (cases "invoke stack env now c w")
  from invoke_shape [OF c] created_observed [OF I, of now w']
  have "observed w' = observed w \<and> jobs w' = jobs w"
    by (auto simp add: prepared_def)
  with c show "jobs (snd (invoke stack env now c w)) = jobs w"
    and "observed (snd (invoke stack env now c w)) = observed w" by simp_all
qed

lemma handle_jobs:
  assumes I: "reader_inv w" and J: "jobs w = []"
  shows "\<forall>j\<in>set (jobs (handle stack env now e w)). runningTask w = Some (job_task j)"
proof (cases e)
  case (Call c)
  with invoke_jobs(1) [OF I, of stack env now c] J show ?thesis by simp
next
  case (Message response)
  from on_message_cases [of now response w]
  show ?thesis
  proof (elim disjE exE conjE)
    assume "snd (on_message now response w) = w"
    with Message J show ?thesis by simp
  next
    fix r n assume "runningTask w = Some r" "snd (on_message now response w) = updateProgress r n w"
    with Message J show ?thesis by (auto simp add: updateProgress_def split: option.splits)
  next
    assume "snd (on_message now response w) = snd (completeTask now response w)"
    with Message J completeTask_observed(2) [OF I, of now response] show ?thesis
      by (auto split: option.splits dest: reactions_task)
  qed
next
  case Timeout
  from on_timeout_cases [of now w]
  show ?thesis
  proof (elim disjE exE conjE)
    assume "snd (on_timeout now w) = w"
    with Timeout J show ?thesis by simp
  next
    fix t rest response
    assume t: "timeouts w = t # rest"
      and e: "snd (on_timeout now w) = snd (completeTask now response (w\<lparr>timeouts := rest\<rparr>))"
    from t have "reader_inv (w\<lparr>timeouts := rest\<rparr>)"
      by (intro reader_inv_timeouts [OF I]) auto
    from completeTask_observed(2) [OF this, of now response] e Timeout J
    show ?thesis by (auto split: option.splits dest: reactions_task)
  qed
next
  case (Then t k)
  from I have S: "sched_inv w" by (simp add: reader_inv_def)
  show ?thesis
  proof (cases "t < length (taskList w)")
    case True
    from Then J task_then_jobs [OF S True] show ?thesis by simp
  next
    case False
    with Then J show ?thesis
      by (simp add: task_then_def Let_def list_update_beyond update_task_def split: settlement.splits)
  qed
next
  case (Catch t k)
  from I have S: "sched_inv w" by (simp add: reader_inv_def)
  show ?thesis
  proof (cases "t < length (taskList w)")
    case True
    from Catch J task_catch_jobs [OF S True] show ?thesis by simp
  next
    case False
    with Catch J show ?thesis
      by (simp add: task_catch_def Let_def list_update_beyond update_task_def split: settlement.splits)
  qed
next
  case (Progress t k)
  with J show ?thesis by simp
qed

lemma perform_settled:
  "job_task j \<noteq> i \<Longrightarrow>
     settled (promiseObject (taskList (perform env j w) ! i)) = settled (promiseObject (taskList w ! i))"
  by (cases j) (simp_all add: perform_def Let_def
      split: callback.splits option.splits settlement.splits)

lemma fold_perform_settled:
  "\<forall>j\<in>set js. job_task j \<noteq> i \<Longrightarrow>
     settled (promiseObject (taskList (fold (perform env) js w) ! i)) =
       settled (promiseObject (taskList w ! i))"
  by (induction js arbitrary: w) (simp_all add: perform_settled)

lemma run_jobs_settled:
  "\<forall>j\<in>set (jobs w). job_task j \<noteq> i \<Longrightarrow>
     settled (promiseObject (taskList (run_jobs env w) ! i)) = settled (promiseObject (taskList w ! i))"
  by (simp add: run_jobs_def fold_perform_settled)

lemma step_keeps:
  assumes I: "reader_inv w" and J: "jobs w = []" and i: "i < length (taskList w)"
  shows "keeps i w (step stack env e w)"
proof -
  let ?h = "handle stack env (fst e) (snd e) w"
  from handle_keeps [OF I i, of stack env "fst e" "snd e"] have H: "keeps i w ?h" .
  from I have S: "sched_inv w" by (simp add: reader_inv_def)
  have "settled (promiseObject (taskList (step stack env e w) ! i)) =
          settled (promiseObject (taskList w ! i))"
    if s: "settled (promiseObject (taskList w ! i)) \<noteq> Pending"
  proof -
    from s sched_inv_running(6) [OF S] have "runningTask w \<noteq> Some i" by auto
    with handle_jobs [OF I J, of stack env "fst e" "snd e"]
    have "\<forall>j\<in>set (jobs ?h). job_task j \<noteq> i" by auto
    from run_jobs_settled [OF this, of env] H s show ?thesis
      by (simp add: step_def keeps_def)
  qed
  with H show ?thesis by (simp add: step_def keeps_def)
qed

lemma exec_keeps:
  assumes "reader_inv w" "jobs w = []" "i < length (taskList w)"
  shows "keeps i w (exec stack env tr w)"
  using assms
proof (induction tr arbitrary: w)
  case Nil
  then show ?case by (simp add: keeps_refl)
next
  case (Cons e tr)
  from step_keeps [OF Cons.prems, of stack env e]
  have k: "keeps i w (step stack env e w)" .
  then have "i < length (taskList (step stack env e w))" by (simp add: keeps_def)
  from Cons.IH [OF step_inv [OF Cons.prems(1)] step_jobs this] k
  show ?case by (auto intro: keeps_trans)
qed

lemma newTask_request:
  "requestMessage (taskList (snd (newTask now act d w)) ! length (taskList w)) =
     \<lparr>action = act, data = (if d \<noteq> DVal VUndefined then d else DVal VNull),
      taskId = Some (newTaskId w)\<rparr>"
  by (simp add: fresh_task_def new_TxtReaderTask_def new_RequestMessage_def run_def)



lemma iterateSporadicLines_result:
  assumes "iterateSporadicLines stack env now cfg x w = (Inr t, w')"
  shows "\<exists>msg. requestMessage (taskList w' ! t) =
     \<lparr>action = ''iterateSporadicLines'',
      data = DObj [(''config'', FConfig msg), (''lines'', FVal x)],
      taskId = Some (newTaskId w)\<rparr>"
  using assms
  by (auto simp add: iterateSporadicLines_def case_prod_unfold Let_def newTaskId_def
      newTask_request [where w = "w\<lparr>heap := hh\<rparr>" for hh, simplified]
      split: sum.splits prod.splits)


lemma handle_observed:
  assumes I: "reader_inv w"
  shows "\<exists>X. observed (handle stack env now e w) = observed w @ X \<and>
            (\<forall>t cb n. OnProgress t cb n \<in> set X \<longrightarrow> runningTask w = Some t)"
proof (cases e)
  case (Call c)
  with invoke_jobs(2) [OF I, of stack env now c] show ?thesis by simp
next
  case (Message response)
  from on_message_cases [of now response w]
  show ?thesis
  proof (elim disjE exE conjE)
    assume "snd (on_message now response w) = w"
    with Message show ?thesis by simp
  next
    fix r n assume "runningTask w = Some r" "snd (on_message now response w) = updateProgress r n w"
    with Message show ?thesis by (auto split: option.splits)
  next
    assume "snd (on_message now response w) = snd (completeTask now response w)"
    with Message completeTask_observed(1) [OF I, of now response] show ?thesis by simp
  qed
next
  case Timeout
  from on_timeout_cases [of now w]
  show ?thesis
  proof (elim disjE exE conjE)
    assume "snd (on_timeout now w) = w"
    with Timeout show ?thesis by simp
  next
    fix t rest response
    assume t: "timeouts w = t # rest"
      and e: "snd (on_timeout now w) = snd (completeTask now response (w\<lparr>timeouts := rest\<rparr>))"
    from t have "reader_inv (w\<lparr>timeouts := rest\<rparr>)"
      by (intro reader_inv_timeouts [OF I]) auto
    from completeTask_observed(1) [OF this, of now response] e Timeout
    show ?thesis by simp
  qed
next
  case (Then t k)
  then show ?thesis by simp
next
  case (Catch t k)
  then show ?thesis by simp
next
  case (Progress t k)
  then show ?thesis by simp
qed

lemma perform_observed:
  "\<exists>Y. observed (perform env j w) = observed w @ Y \<and> (\<forall>t cb n. OnProgress t cb n \<notin> set Y)"
  by (cases j) (auto simp add: perform_def Let_def
      split: callback.splits option.splits settlement.splits)

lemma fold_perform_observed:
  "\<exists>Y. observed (fold (perform env) js w) = observed w @ Y \<and> (\<forall>t cb n. OnProgress t cb n \<notin> set Y)"
proof (induction js arbitrary: w)
  case Nil
  then show ?case by simp
next
  case (Cons j js)
  from perform_observed [of env j w] obtain Y
    where Y: "observed (perform env j w) = observed w @ Y" "\<forall>t cb n. OnProgress t cb n \<notin> set Y"
    by blast
  from Cons [of "perform env j w"] obtain Z
    where Z: "observed (fold (perform env) js (perform env j w)) = observed (perform env j w) @ Z"
      "\<forall>t cb n. OnProgress t cb n \<notin> set Z"
    by blast
  from Y Z show ?case by (intro exI [of _ "Y @ Z"]) simp
qed

lemma run_jobs_observed:
  "\<exists>Y. observed (run_jobs env w) = observed w @ Y \<and> (\<forall>t cb n. OnProgress t cb n \<notin> set Y)"
  using fold_perform_observed [of env "jobs w" "w\<lparr>jobs := []\<rparr>"] by (simp add: run_jobs_def)

lemma step_observed:
  assumes I: "reader_inv w"
  shows "\<forall>t cb n. OnProgress t cb n \<in> set (drop (length (observed w)) (observed (step stack env e w)))
           \<longrightarrow> runningTask w = Some t"
proof -
  from handle_observed [OF I, of stack env "fst e" "snd e"]
  obtain X where X: "observed (handle stack env (fst e) (snd e) w) = observed w @ X"
    and P: "\<forall>t cb n. OnProgress t cb n \<in> set X \<longrightarrow> runningTask w = Some t" by blast
  from run_jobs_observed [of env "handle stack env (fst e) (snd e) w"]
  obtain Y where Y: "observed (step stack env e w) = observed (handle stack env (fst e) (snd e) w) @ Y"
    and Q: "\<forall>t cb n. OnProgress t cb n \<notin> set Y" by (auto simp add: step_def)
  have "observed (step stack env e w) = observed w @ X @ Y" by (simp add: X Y)
  with P Q show ?thesis by auto
qed

lemma settled_then_noop:
  assumes I: "reader_inv w" and J: "jobs w = []" and t: "t < length (taskList w)"
    and s: "settled (promiseObject (taskList w ! t)) \<noteq> Pending"
  shows "step stack env (now, Then t k) w = w" "step stack env (now, Catch t k) w = w"
proof -
  from I have S: "sched_inv w" by (simp add: reader_inv_def)
  from task_inv_states(7) [OF sched_inv_task [OF S t]] s
  have c: "state (taskList w ! t) = Completed" by simp
  note r = run_jobs_idle [OF J]
  show "step stack env (now, Then t k) w = w"
    using t c r by (simp add: step_def task_then_eq [OF S t])
  show "step stack env (now, Catch t k) w = w"
    using t c r by (simp add: step_def task_catch_eq [OF S t])
qed

lemma pending_then_registers:
  assumes I: "reader_inv w" and t: "t < length (taskList w)"
    and s: "settled (promiseObject (taskList w ! t)) = Pending"
  shows "fulfilReactions (promiseObject (taskList (step stack env (now, Then t k) w) ! t)) =
           fulfilReactions (promiseObject (taskList w ! t)) @ [UserCallback k]"
    and "rejectReactions (promiseObject (taskList (step stack env (now, Catch t k) w) ! t)) =
           rejectReactions (promiseObject (taskList w ! t)) @ [UserCallback k]"
proof -
  from I have S: "sched_inv w" by (simp add: reader_inv_def)
  from task_inv_states(7) [OF sched_inv_task [OF S t]] s
  have c: "state (taskList w ! t) \<noteq> Completed" by simp
  show "fulfilReactions (promiseObject (taskList (step stack env (now, Then t k) w) ! t)) =
           fulfilReactions (promiseObject (taskList w ! t)) @ [UserCallback k]"
    using t c by (simp add: step_def task_then_eq [OF S t] add_then_def)
  show "rejectReactions (promiseObject (taskList (step stack env (now, Catch t k) w) ! t)) =
           rejectReactions (promiseObject (taskList w ! t)) @ [UserCallback k]"
    using t c by (simp add: step_def task_catch_eq [OF S t] add_catch_def)
qed

lemma perform_fulfil:
  assumes "t < length (taskList w)" "settled (promiseObject (taskList w ! t)) = Fulfilled v"
  shows "observed (perform env (FulfilJob t cb) w) = observed w @ [OnFulfilled t cb v]"
    and "settled (promiseObject (taskList (perform env (FulfilJob t cb) w) ! t)) =
           Fulfilled (after_observer env v cb)"
  using assms
  by (auto simp add: perform_def Let_def after_observer_def set_result_def
      split: callback.splits option.splits)

lemma fold_perform_fulfil:
  assumes "t < length (taskList w)" "settled (promiseObject (taskList w ! t)) = Fulfilled v"
  shows "observed (fold (perform env) (map (FulfilJob t) cbs) w) = observed w @ notify env t v cbs \<and>
         settled (promiseObject (taskList (fold (perform env) (map (FulfilJob t) cbs) w) ! t)) =
           Fulfilled (foldl (after_observer env) v cbs)"
  using assms
proof (induction cbs arbitrary: w v)
  case Nil
  then show ?case by simp
next
  case (Cons cb cbs)
  have l: "t < length (taskList (perform env (FulfilJob t cb) w))" using Cons.prems(1) by simp
  from Cons.IH [OF l perform_fulfil(2) [OF Cons.prems, of env cb]]
    perform_fulfil(1) [OF Cons.prems, of env cb]
  show ?case by simp
qed

lemma fold_perform_reject:
  "observed (fold (perform env) (map (\<lambda>cb. RejectJob t cb m) cbs) w) =
     observed w @ map (\<lambda>cb. OnFailed t cb m) cbs"
  "taskList (fold (perform env) (map (\<lambda>cb. RejectJob t cb m) cbs) w) = taskList w"
  by (induction cbs arbitrary: w; simp add: perform_def)+

lemma settlement_notifies:
  assumes I: "reader_inv w" and J: "jobs w = []" and r: "runningTask w = Some r"
    and m: "resp_taskId response = tid (taskList w ! r)" "resp_done response"
  shows "observed (step stack env (now, Message response) w) =
     observed w @
       (if resp_success response
        then notify env r \<lparr>timeTaken = now - startTime (taskList w ! r),
                    message = resp_message response, result = resp_result response\<rparr>
               (fulfilReactions (promiseObject (taskList w ! r)))
        else map (\<lambda>cb. OnFailed r cb (resp_message response))
               (rejectReactions (promiseObject (taskList w ! r))))"
    and "settled (promiseObject (taskList (step stack env (now, Message response) w) ! r)) =
       (if resp_success response
        then Fulfilled (foldl (after_observer env)
               \<lparr>timeTaken = now - startTime (taskList w ! r),
                 message = resp_message response, result = resp_result response\<rparr>
               (fulfilReactions (promiseObject (taskList w ! r))))
        else Rejected (resp_message response))"
proof -
  let ?c = "snd (completeTask now response w)"
  let ?v = "\<lparr>timeTaken = now - startTime (taskList w ! r),
              message = resp_message response, result = resp_result response\<rparr>"
  from I have S: "sched_inv w" by (simp add: reader_inv_def)
  have st: "step stack env (now, Message response) w = fold (perform env) (jobs ?c) (?c\<lparr>jobs := []\<rparr>)"
    by (simp add: step_def on_message_terminal [OF r m] run_jobs_def)
  have jb: "jobs ?c = reactions_of r (outcome_of now response (taskList w ! r))
                        (promiseObject (taskList w ! r))"
    using completeTask_observed(2) [OF I, of now response] r J by simp
  have ob: "observed ?c = observed w" by (rule completeTask_observed(1) [OF I])
  have tk: "taskList ?c ! r = settle_task now response (taskList w ! r)"
    by (rule completeTask_settles(1) [OF I r])
  have l: "r < length (taskList (?c\<lparr>jobs := []\<rparr>))"
    using sched_inv_running(1) [OF S r] completeTask_task(1) [OF I, of r now response] by simp
  show "observed (step stack env (now, Message response) w) =
     observed w @
       (if resp_success response
        then notify env r ?v (fulfilReactions (promiseObject (taskList w ! r)))
        else map (\<lambda>cb. OnFailed r cb (resp_message response))
               (rejectReactions (promiseObject (taskList w ! r))))"
  proof (cases "resp_success response")
    case True
    have s: "settled (promiseObject (taskList (?c\<lparr>jobs := []\<rparr>) ! r)) = Fulfilled ?v"
      using True by (simp add: tk outcome_of_def)
    from fold_perform_fulfil [OF l s, of env "fulfilReactions (promiseObject (taskList w ! r))"] True
    show ?thesis by (simp add: st jb ob reactions_of_def outcome_of_def)
  next
    case False
    with fold_perform_reject(1) [of env r "resp_message response"
        "rejectReactions (promiseObject (taskList w ! r))" "?c\<lparr>jobs := []\<rparr>"]
    show ?thesis by (simp add: st jb ob reactions_of_def outcome_of_def)
  qed
  show "settled (promiseObject (taskList (step stack env (now, Message response) w) ! r)) =
       (if resp_success response
        then Fulfilled (foldl (after_observer env) ?v
               (fulfilReactions (promiseObject (taskList w ! r))))
        else Rejected (resp_message response))"
  proof (cases "resp_success response")
    case True
    have s: "settled (promiseObject (taskList (?c\<lparr>jobs := []\<rparr>) ! r)) = Fulfilled ?v"
      using True by (simp add: tk outcome_of_def)
    from fold_perform_fulfil [OF l s, of env "fulfilReactions (promiseObject (taskList w ! r))"] True
    show ?thesis by (simp add: st jb reactions_of_def outcome_of_def)
  next
    case False
    with fold_perform_reject(2) [of env r "resp_message response"
        "rejectReactions (promiseObject (taskList w ! r))" "?c\<lparr>jobs := []\<rparr>"]
    show ?thesis by (simp add: st jb reactions_of_def outcome_of_def tk)
  qed
qed

lemma exec_append:
  "exec stack env (xs @ ys) w = exec stack env ys (exec stack env xs w)"
  by (induction xs arbitrary: w) simp_all

lemma outcome_stable:
  assumes "reader_inv w" "jobs w = []" "outcome_at w t \<noteq> Pending"
  shows "outcome_at (exec stack env tr w) t = outcome_at w t"
proof -
  from assms(3) have t: "t < length (taskList w)" by (simp add: outcome_at_def split: if_splits)
  from exec_keeps [OF assms(1,2) t, of stack env tr] assms(3) t
  show ?thesis by (simp add: outcome_at_def keeps_def)
qed

lemma settle_count_settled:
  assumes "reader_inv w" "jobs w = []" "outcome_at w t \<noteq> Pending"
  shows "settle_count stack env t tr w = 0"
  using assms
proof (induction tr arbitrary: w)
  case Nil
  then show ?case by simp
next
  case (Cons e es)
  from outcome_stable [OF Cons.prems, of stack env "[e]"]
  have s: "outcome_at (step stack env e w) t = outcome_at w t" by simp
  from Cons.IH [OF step_inv [OF Cons.prems(1)] step_jobs] s Cons.prems(3)
  show ?case by simp
qed

lemma settle_count_exec:
  assumes "reader_inv w" "jobs w = []"
  shows "settle_count stack env t tr w =
     (if outcome_at w t = Pending \<and> outcome_at (exec stack env tr w) t \<noteq> Pending then 1 else 0)"
  using assms
proof (induction tr arbitrary: w)
  case Nil
  then show ?case by simp
next
  case (Cons e es)
  let ?w1 = "step stack env e w"
  have I1: "reader_inv ?w1" by (rule step_inv [OF Cons.prems(1)])
  have J1: "jobs ?w1 = []" by simp
  show ?case
  proof (cases "outcome_at w t = Pending")
    case False
    from settle_count_settled [OF Cons.prems False, of stack env "e # es"] False
    show ?thesis by simp
  next
    case True
    show ?thesis
    proof (cases "outcome_at ?w1 t = Pending")
      case p: True
      from Cons.IH [OF I1 J1] True p show ?thesis by simp
    next
      case False
      from settle_count_settled [OF I1 J1 False, of stack env es]
        outcome_stable [OF I1 J1 False, of stack env es] True False
      show ?thesis by simp
    qed
  qed
qed

lemma settle_count_run:
  "settle_count stack env t tr (new_TxtReader h) =
     (if outcome_at (exec stack env tr (new_TxtReader h)) t \<noteq> Pending then 1 else 0)"
proof -
  have "jobs (new_TxtReader h) = []" "outcome_at (new_TxtReader h) t = Pending"
    by (simp_all add: new_TxtReader_def outcome_at_def)
  with settle_count_exec [OF new_TxtReader_inv, of h stack env t tr] show ?thesis by simp
qed





















text \<open>
  C2. Along every run of a freshly constructed reader, the tasks created so far carry the ids
  1, 2, 3, ... in the order of their creation, and so do their requests; whatever action method
  is called next, the task it creates is appended with the next id, and a call that throws
  creates no task. Completion, success or failure never changes an id.
\<close>

theorem task_ids_in_call_order:
  "let w = exec stack env tr (new_TxtReader h) in
     map tid (taskList w) = [1..<Suc (length (taskList w))] \<and>
     map (\<lambda>k. taskId (requestMessage k)) (taskList w) = map Some [1..<Suc (length (taskList w))] \<and>
     (case invoke stack env now c w of
        (Inr t, w') \<Rightarrow>
          t = length (taskList w) \<and> taskList w' = taskList w @ [taskList w' ! t] \<and>
          tid (taskList w' ! t) = Suc (length (taskList w)) \<and>
          taskId (requestMessage (taskList w' ! t)) = Some (Suc (length (taskList w)))
      | (Inl e, w') \<Rightarrow> taskList w' = taskList w)"
  unfolding Let_def
  by (intro conjI reachable_tids invoke_new_task reachable_inv)

text \<open>
  C8. A message from the worker that arrives while no task is running is dropped: the handler
  throws nothing and returns the reader unchanged, whatever task id the message carries; in a
  run of the reader the whole step, reactions included, leaves the reader as it was.
\<close>

theorem message_dropped_when_idle:
  "let w = exec stack env tr (new_TxtReader h) in
     runningTask w = None \<longrightarrow>
       on_message now response w = (None, w) \<and>
       step stack env (now, Message response) w = w"
  using reachable_jobs [of stack env tr h]
  by (simp add: Let_def on_message_def step_def run_jobs_def)

theorem message_dropped_when_idle_witness:
  "runningTask (exec 0 sample_env [(1, Call (SetChunkSize (Finite 4))), (3, Message reply1)]
      (new_TxtReader [])) = None \<and>
   on_message 5 (reply1\<lparr>resp_taskId := 9\<rparr>)
      (exec 0 sample_env [(1, Call (SetChunkSize (Finite 4))), (3, Message reply1)] (new_TxtReader [])) =
     (None, exec 0 sample_env [(1, Call (SetChunkSize (Finite 4))), (3, Message reply1)]
        (new_TxtReader [])) \<and>
   step 0 sample_env (5, Message (reply1\<lparr>resp_taskId := 9\<rparr>))
      (exec 0 sample_env [(1, Call (SetChunkSize (Finite 4))), (3, Message reply1)] (new_TxtReader [])) =
     exec 0 sample_env [(1, Call (SetChunkSize (Finite 4))), (3, Message reply1)] (new_TxtReader [])"
proof -
  have idle: "runningTask (exec 0 sample_env [(1, Call (SetChunkSize (Finite 4))), (3, Message reply1)]
      (new_TxtReader [])) = None"
    by code_simp
  from idle message_dropped_when_idle [of 0 sample_env
      "[(1, Call (SetChunkSize (Finite 4))), (3, Message reply1)]" "[]" 5
      "reply1\<lparr>resp_taskId := 9\<rparr>"]
  show ?thesis by (simp add: Let_def)
qed

text \<open>
  C6. While a task is running, the message listener throws exactly when the response's task id
  differs from the running task's id, or when the response is a progress message
  (\<open>done = false\<close>) whose result is not a number in [0, 100]. A throw ends the listener with
  the reader untouched, so no future is settled by it. A progress message with a valid number
  throws nothing and changes nothing but to call the running task's progress observer, if it
  has one, with that number.
\<close>

theorem fatal_protocol_errors:
  "let w = exec stack env tr (new_TxtReader h) in
     runningTask w = Some r \<longrightarrow>
       ((fst (on_message now response w) \<noteq> None) =
          (resp_taskId response \<noteq> tid (taskList w ! r) \<or>
           (\<not> resp_done response \<and> \<not> valid_progress (resp_result response)))) \<and>
       (fst (on_message now response w) \<noteq> None \<longrightarrow> snd (on_message now response w) = w) \<and>
       (resp_taskId response = tid (taskList w ! r) \<and> \<not> resp_done response \<and>
        valid_progress (resp_result response) \<longrightarrow>
          fst (on_message now response w) = None \<and>
          snd (on_message now response w) =
            w\<lparr>observed := observed w @ progress_calls w r (resp_result response)\<rparr>)"
  using on_message_running [OF reachable_inv [of stack env tr h], where r = r and now = now
      and response = response]
  by (simp add: Let_def)

theorem fatal_protocol_errors_witness:
  "runningTask (exec 0 sample_env probe (new_TxtReader [])) = Some 0 \<and>
   fst (on_message 5 (reply1\<lparr>resp_taskId := 2\<rparr>) (exec 0 sample_env probe (new_TxtReader []))) \<noteq> None \<and>
   snd (on_message 5 (reply1\<lparr>resp_taskId := 2\<rparr>) (exec 0 sample_env probe (new_TxtReader []))) =
     exec 0 sample_env probe (new_TxtReader []) \<and>
   fst (on_message 5 (reply1\<lparr>resp_done := False, resp_result := MNum (Finite 101)\<rparr>)
          (exec 0 sample_env probe (new_TxtReader []))) \<noteq> None \<and>
   on_message 5 (reply1\<lparr>resp_done := False, resp_result := MNum (Finite 50)\<rparr>)
          (exec 0 sample_env probe (new_TxtReader [])) =
     (None, (exec 0 sample_env probe (new_TxtReader []))
              \<lparr>observed := [OnProgress 0 (UserCallback 7) (Finite 50)]\<rparr>)"
proof -
  let ?w = "exec 0 sample_env probe (new_TxtReader [])"
  have run: "runningTask ?w = Some 0" by code_simp
  have i: "tid (taskList ?w ! 0) = 1" by code_simp
  have o: "observed ?w = []" by code_simp
  have p: "onProgress (taskList ?w ! 0) = Some (UserCallback 7)" by code_simp
  have v: "\<not> valid_progress (MNum (Finite 101))" "valid_progress (MNum (Finite 50))"
    by (simp_all add: valid_progress_def in_percent_def)
  note T = fatal_protocol_errors [of 0 sample_env probe "[]" 0 5]
  from T [of "reply1\<lparr>resp_taskId := 2\<rparr>"] run i
  have a: "fst (on_message 5 (reply1\<lparr>resp_taskId := 2\<rparr>) ?w) \<noteq> None \<and>
           snd (on_message 5 (reply1\<lparr>resp_taskId := 2\<rparr>) ?w) = ?w"
    by (simp add: Let_def reply1_def)
  from T [of "reply1\<lparr>resp_done := False, resp_result := MNum (Finite 101)\<rparr>"] run i v
  have b: "fst (on_message 5 (reply1\<lparr>resp_done := False, resp_result := MNum (Finite 101)\<rparr>) ?w) \<noteq> None"
    by (simp add: Let_def reply1_def)
  from T [of "reply1\<lparr>resp_done := False, resp_result := MNum (Finite 50)\<rparr>"] run i v o p
  have c: "on_message 5 (reply1\<lparr>resp_done := False, resp_result := MNum (Finite 50)\<rparr>) ?w =
       (None, ?w\<lparr>observed := [OnProgress 0 (UserCallback 7) (Finite 50)]\<rparr>)"
    by (simp add: Let_def reply1_def progress_calls_def prod_eq_iff)
  from run a b c show ?thesis by simp
qed

text \<open>
  C7. When a terminal response for the running task arrives, the listener hands it to
  \<^verbatim>\<open>completeTask\<close>, which throws nothing and settles that task's promise: fulfilled with
  \<open>{timeTaken, message, result}\<close> when \<open>success\<close> is true, \<open>timeTaken\<close> being the time of
  completion minus the recorded start time and the other two taken from the response, and
  rejected with the response's message otherwise. Afterwards the task is \<open>Completed\<close> and its
  \<open>resolve\<close>, \<open>reject\<close> and \<open>promise\<close> fields are \<^verbatim>\<open>null\<close>.
\<close>

theorem terminal_response_settles:
  "let w = exec stack env tr (new_TxtReader h) in
     runningTask w = Some r \<and> resp_taskId response = tid (taskList w ! r) \<and> resp_done response \<longrightarrow>
       (let k = taskList (snd (on_message now response w)) ! r in
          completeTask now response w = on_message now response w \<and>
          fst (on_message now response w) = None \<and>
          settled (promiseObject k) =
            (if resp_success response
             then Fulfilled \<lparr>timeTaken = now - startTime (taskList w ! r),
                             message = resp_message response, result = resp_result response\<rparr>
             else Rejected (resp_message response)) \<and>
          (\<exists>v. settled (promiseObject k) = Fulfilled v) = resp_success response \<and>
          state k = Completed \<and> \<not> resolve k \<and> \<not> reject k \<and> \<not> promise k)"
proof -
  let ?w = "exec stack env tr (new_TxtReader h)"
  have I: "reader_inv ?w" by (rule reachable_inv)
  show ?thesis
    unfolding Let_def
  proof (intro impI, elim conjE)
    assume r: "runningTask ?w = Some r" "resp_taskId response = tid (taskList ?w ! r)"
      "resp_done response"
    note M = on_message_terminal [OF r, of now]
    note C = completeTask_settles [OF I r(1), of now response]
    show "completeTask now response ?w = on_message now response ?w \<and>
      fst (on_message now response ?w) = None \<and>
      settled (promiseObject (taskList (snd (on_message now response ?w)) ! r)) =
        (if resp_success response
         then Fulfilled \<lparr>timeTaken = now - startTime (taskList ?w ! r),
                         message = resp_message response, result = resp_result response\<rparr>
         else Rejected (resp_message response)) \<and>
      (\<exists>v. settled (promiseObject (taskList (snd (on_message now response ?w)) ! r)) = Fulfilled v) =
        resp_success response \<and>
      state (taskList (snd (on_message now response ?w)) ! r) = Completed \<and>
      \<not> resolve (taskList (snd (on_message now response ?w)) ! r) \<and>
      \<not> reject (taskList (snd (on_message now response ?w)) ! r) \<and>
      \<not> promise (taskList (snd (on_message now response ?w)) ! r)"
      by (simp add: M C outcome_of_def)
  qed
qed

theorem terminal_response_settles_witness:
  "runningTask (exec 0 sample_env probe (new_TxtReader [])) = Some 0 \<and>
   settled (promiseObject (taskList (snd (on_message 5 reply1
      (exec 0 sample_env probe (new_TxtReader [])))) ! 0)) =
     Fulfilled \<lparr>timeTaken = 4, message = ''ok'',
                 result = MObj [(''lineCount'', MNum (Finite 4))]\<rparr> \<and>
   settled (promiseObject (taskList (snd (on_message 5 (reply1\<lparr>resp_success := False\<rparr>)
      (exec 0 sample_env probe (new_TxtReader [])))) ! 0)) = Rejected ''ok'' \<and>
   \<not> resolve (taskList (snd (on_message 5 reply1 (exec 0 sample_env probe (new_TxtReader [])))) ! 0) \<and>
   \<not> reject (taskList (snd (on_message 5 reply1 (exec 0 sample_env probe (new_TxtReader [])))) ! 0)"
proof -
  let ?w = "exec 0 sample_env probe (new_TxtReader [])"
  have run: "runningTask ?w = Some 0" by code_simp
  have i: "tid (taskList ?w ! 0) = 1" by code_simp
  have s: "startTime (taskList ?w ! 0) = 1" by code_simp
  have f: "resp_taskId reply1 = 1" "resp_done reply1" "resp_success reply1"
    "resp_message reply1 = ''ok''" "resp_result reply1 = MObj [(''lineCount'', MNum (Finite 4))]"
    by (simp_all add: reply1_def)
  note T = terminal_response_settles [of 0 sample_env probe "[]" 0 _ 5]
  from T [of reply1] T [of "reply1\<lparr>resp_success := False\<rparr>"] run i s f
  show ?thesis by (simp add: Let_def)
qed

text \<open>
  C1, as the code has it. In every run of the reader: at most one task is \<open>Running\<close>, and it
  is the one in the running slot; the \<open>Queued\<close> tasks are exactly those in the pending queue,
  and no message posted so far carries the id of a queued task. A task created by an action
  method is dispatched within the call if and only if no task is running; otherwise it becomes
  \<open>Queued\<close> at the end of the queue and the call posts nothing. When the running task
  completes, the head of the queue is dispatched and the rest of the queue keeps its order.
  Dispatching a task posts its request at that point unless the request's data is an
  \<^verbatim>\<open>Error\<close>: such a request is never posted, a zero-delay timer is registered instead
  (\<open>dispatch_post\<close>, \<open>dispatch_timer\<close>).
\<close>

theorem single_flight_fifo:
  "let w = exec stack env tr (new_TxtReader h) in
     (\<forall>i<length (taskList w). \<forall>j<length (taskList w).
        state (taskList w ! i) = Running \<and> state (taskList w ! j) = Running \<longrightarrow> i = j) \<and>
     (\<forall>i<length (taskList w). (state (taskList w ! i) = Running) = (runningTask w = Some i)) \<and>
     (\<forall>i<length (taskList w). (state (taskList w ! i) = Queued) = (i \<in> set (queuedTaskList w))) \<and>
     (\<forall>i\<in>set (queuedTaskList w). \<forall>m\<in>set (posted w).
        taskId m \<noteq> taskId (requestMessage (taskList w ! i))) \<and>
     (\<forall>t w'. invoke stack env now c w = (Inr t, w') \<longrightarrow>
        (if runningTask w = None
         then runningTask w' = Some t \<and> state (taskList w' ! t) = Running \<and>
              queuedTaskList w' = [] \<and>
              posted w' = posted w @ dispatch_post (taskList w' ! t) \<and>
              timeouts w' = timeouts w @ dispatch_timer t (taskList w' ! t)
         else runningTask w' = runningTask w \<and> state (taskList w' ! t) = Queued \<and>
              queuedTaskList w' = queuedTaskList w @ [t] \<and>
              posted w' = posted w \<and> timeouts w' = timeouts w)) \<and>
     (\<forall>r. runningTask w = Some r \<longrightarrow>
        state (taskList (snd (completeTask now response w)) ! r) = Completed \<and>
        (case queuedTaskList w of
           [] \<Rightarrow>
             runningTask (snd (completeTask now response w)) = None \<and>
             posted (snd (completeTask now response w)) = posted w \<and>
             timeouts (snd (completeTask now response w)) = timeouts w
         | t # q \<Rightarrow>
             runningTask (snd (completeTask now response w)) = Some t \<and>
             queuedTaskList (snd (completeTask now response w)) = q \<and>
             state (taskList (snd (completeTask now response w)) ! t) = Running \<and>
             posted (snd (completeTask now response w)) =
               posted w @ dispatch_post (taskList w ! t) \<and>
             timeouts (snd (completeTask now response w)) =
               timeouts w @ dispatch_timer t (taskList w ! t)))"
proof -
  let ?w = "exec stack env tr (new_TxtReader h)"
  have I: "reader_inv ?w" by (rule reachable_inv)
  then have S: "sched_inv ?w" by (simp add: reader_inv_def)
  have A: "\<forall>i<length (taskList ?w). (state (taskList ?w ! i) = Running) = (runningTask ?w = Some i)"
    using task_inv_states(1) [OF sched_inv_task [OF S]] by blast
  have B: "\<forall>i<length (taskList ?w). \<forall>j<length (taskList ?w).
        state (taskList ?w ! i) = Running \<and> state (taskList ?w ! j) = Running \<longrightarrow> i = j"
    using A by auto
  have C: "\<forall>i<length (taskList ?w). (state (taskList ?w ! i) = Queued) = (i \<in> set (queuedTaskList ?w))"
    using task_inv_states(2) [OF sched_inv_task [OF S]] by blast
  have D: "\<forall>i\<in>set (queuedTaskList ?w). \<forall>m\<in>set (posted ?w).
        taskId m \<noteq> taskId (requestMessage (taskList ?w ! i))"
    using queued_not_posted [OF S] by blast
  have E: "\<forall>t w'. invoke stack env now c ?w = (Inr t, w') \<longrightarrow>
        (if runningTask ?w = None
         then runningTask w' = Some t \<and> state (taskList w' ! t) = Running \<and>
              queuedTaskList w' = [] \<and>
              posted w' = posted ?w @ dispatch_post (taskList w' ! t) \<and>
              timeouts w' = timeouts ?w @ dispatch_timer t (taskList w' ! t)
         else runningTask w' = runningTask ?w \<and> state (taskList w' ! t) = Queued \<and>
              queuedTaskList w' = queuedTaskList ?w @ [t] \<and>
              posted w' = posted ?w \<and> timeouts w' = timeouts ?w)"
  proof (intro allI impI)
    fix t w' assume "invoke stack env now c ?w = (Inr t, w')"
    from invoke_shape [OF this] have t: "t = length (taskList ?w)" and c: "created now ?w w'"
      by simp_all
    from created_sched [OF I c] t
    show "if runningTask ?w = None
         then runningTask w' = Some t \<and> state (taskList w' ! t) = Running \<and>
              queuedTaskList w' = [] \<and>
              posted w' = posted ?w @ dispatch_post (taskList w' ! t) \<and>
              timeouts w' = timeouts ?w @ dispatch_timer t (taskList w' ! t)
         else runningTask w' = runningTask ?w \<and> state (taskList w' ! t) = Queued \<and>
              queuedTaskList w' = queuedTaskList ?w @ [t] \<and>
              posted w' = posted ?w \<and> timeouts w' = timeouts ?w"
      by simp
  qed
  have F: "\<forall>r. runningTask ?w = Some r \<longrightarrow>
        state (taskList (snd (completeTask now response ?w)) ! r) = Completed \<and>
        (case queuedTaskList ?w of
           [] \<Rightarrow>
             runningTask (snd (completeTask now response ?w)) = None \<and>
             posted (snd (completeTask now response ?w)) = posted ?w \<and>
             timeouts (snd (completeTask now response ?w)) = timeouts ?w
         | t # q \<Rightarrow>
             runningTask (snd (completeTask now response ?w)) = Some t \<and>
             queuedTaskList (snd (completeTask now response ?w)) = q \<and>
             state (taskList (snd (completeTask now response ?w)) ! t) = Running \<and>
             posted (snd (completeTask now response ?w)) =
               posted ?w @ dispatch_post (taskList ?w ! t) \<and>
             timeouts (snd (completeTask now response ?w)) =
               timeouts ?w @ dispatch_timer t (taskList ?w ! t))"
  proof (intro allI impI)
    fix r assume r: "runningTask ?w = Some r"
    note X = completeTask_sched [OF I r, where now = now and response = response]
    show "state (taskList (snd (completeTask now response ?w)) ! r) = Completed \<and>
        (case queuedTaskList ?w of
           [] \<Rightarrow>
             runningTask (snd (completeTask now response ?w)) = None \<and>
             posted (snd (completeTask now response ?w)) = posted ?w \<and>
             timeouts (snd (completeTask now response ?w)) = timeouts ?w
         | t # q \<Rightarrow>
             runningTask (snd (completeTask now response ?w)) = Some t \<and>
             queuedTaskList (snd (completeTask now response ?w)) = q \<and>
             state (taskList (snd (completeTask now response ?w)) ! t) = Running \<and>
             posted (snd (completeTask now response ?w)) =
               posted ?w @ dispatch_post (taskList ?w ! t) \<and>
             timeouts (snd (completeTask now response ?w)) =
               timeouts ?w @ dispatch_timer t (taskList ?w ! t))"
      using X(1) X(2) X(3) by (cases "queuedTaskList ?w") simp_all
  qed
  show ?thesis unfolding Let_def by (intro conjI B A C D E F)
qed

text \<open>
  The scenario of the specification: \<^verbatim>\<open>loadFile(A)\<close>, then \<^verbatim>\<open>getLines(0, 10)\<close> while the load is
  running, then the load's terminal response. The \<^verbatim>\<open>getLines\<close> task waits in the queue and is
  dispatched by the response, but its request is not posted then: no file was loaded at the time
  of the call, so the request holds an \<^verbatim>\<open>Error\<close> and the dispatch registers a timer.
\<close>

theorem queued_request_not_posted_counterexample:
  "state (taskList (exec 0 sample_env queue_scenario (new_TxtReader [])) ! 1) = Queued \<and>
   runningTask (exec 0 sample_env (queue_scenario @ [(3, Message reply1)]) (new_TxtReader [])) = Some 1 \<and>
   state (taskList (exec 0 sample_env (queue_scenario @ [(3, Message reply1)]) (new_TxtReader [])) ! 1) =
     Running \<and>
   map action (posted (exec 0 sample_env (queue_scenario @ [(3, Message reply1)]) (new_TxtReader []))) =
     [''loadFile''] \<and>
   timeouts (exec 0 sample_env (queue_scenario @ [(3, Message reply1)]) (new_TxtReader [])) = [1] \<and>
   posted (exec 0 sample_env (queue_scenario @ [(3, Message reply1), (4, Timeout)]) (new_TxtReader [])) =
     posted (exec 0 sample_env queue_scenario (new_TxtReader []))"
  by code_simp

theorem single_flight_fifo_witness:
  "runningTask (exec 0 sample_env queue_scenario (new_TxtReader [])) = Some 0 \<and>
   state (taskList (exec 0 sample_env queue_scenario (new_TxtReader [])) ! 0) = Running \<and>
   state (taskList (exec 0 sample_env queue_scenario (new_TxtReader [])) ! 1) = Queued \<and>
   runningTask (snd (completeTask 3 reply1 (exec 0 sample_env queue_scenario (new_TxtReader [])))) =
     Some 1 \<and>
   state (taskList (snd (completeTask 3 reply1 (exec 0 sample_env queue_scenario (new_TxtReader [])))) ! 0) =
     Completed \<and>
   posted (snd (completeTask 3 reply1 (exec 0 sample_env queue_scenario (new_TxtReader [])))) =
     posted (exec 0 sample_env queue_scenario (new_TxtReader [])) \<and>
   timeouts (snd (completeTask 3 reply1 (exec 0 sample_env queue_scenario (new_TxtReader [])))) = [1]"
proof -
  let ?w = "exec 0 sample_env queue_scenario (new_TxtReader [])"
  have f: "runningTask ?w = Some 0" "queuedTaskList ?w = [1]" "length (taskList ?w) = 2"
    "timeouts ?w = []" "is_Error (data (requestMessage (taskList ?w ! 1)))"
    by code_simp+
  note T = single_flight_fifo [of 0 sample_env queue_scenario "[]" 3 EnableVerbose reply1,
      unfolded Let_def]
  from T have A: "\<forall>i<length (taskList ?w). (state (taskList ?w ! i) = Running) = (runningTask ?w = Some i)"
    and C: "\<forall>i<length (taskList ?w). (state (taskList ?w ! i) = Queued) = (i \<in> set (queuedTaskList ?w))"
    and F: "\<forall>r. runningTask ?w = Some r \<longrightarrow>
        state (taskList (snd (completeTask 3 reply1 ?w)) ! r) = Completed \<and>
        (case queuedTaskList ?w of
           [] \<Rightarrow>
             runningTask (snd (completeTask 3 reply1 ?w)) = None \<and>
             posted (snd (completeTask 3 reply1 ?w)) = posted ?w \<and>
             timeouts (snd (completeTask 3 reply1 ?w)) = timeouts ?w
         | t # q \<Rightarrow>
             runningTask (snd (completeTask 3 reply1 ?w)) = Some t \<and>
             queuedTaskList (snd (completeTask 3 reply1 ?w)) = q \<and>
             state (taskList (snd (completeTask 3 reply1 ?w)) ! t) = Running \<and>
             posted (snd (completeTask 3 reply1 ?w)) =
               posted ?w @ dispatch_post (taskList ?w ! t) \<and>
             timeouts (snd (completeTask 3 reply1 ?w)) =
               timeouts ?w @ dispatch_timer t (taskList ?w ! t))"
    by blast+
  from A f have a: "state (taskList ?w ! 0) = Running" by simp
  from C f have c: "state (taskList ?w ! 1) = Queued" by simp
  from F f a c show ?thesis by (simp add: dispatch_post_def dispatch_timer_def)
qed

text \<open>
  C3, as the code has it. In every run of the reader and for every task: its promise settles
  exactly once, when the task completes. The outcome changes at exactly one step of the run if
  the task is \<open>Completed\<close> and at none if it is not; the promise is pending exactly while the task
  is not \<open>Completed\<close>; once settled, the outcome never changes again, however the run goes on.
  An observer registered with \<^verbatim>\<open>then\<close> or \<^verbatim>\<open>catch\<close> after settlement is ignored, the
  registration leaving the reader exactly as it was (the task has dropped its promise), so it
  is never called. An observer registered while the promise is pending is added to the
  promise's reactions. When the terminal response of the running task arrives, the promise
  settles at that step and the reactions of the matching kind are called in the order of
  registration: the rejection observers with the response's message, the fulfilment observers
  with the response object \<open>{timeTaken, message, result}\<close> as the observers before them left it
  (\<open>notify\<close>). Only the observer that \<^verbatim>\<open>getLines\<close> registers writes to that object: it decodes
  the lines in place (\<open>after_observer\<close>), so the observers after it receive the decoded lines,
  and the decoded lines are what the promise holds afterwards. A progress observer is only ever
  called for the running task, whose promise is pending.
\<close>

theorem settle_once_observers:
  "let w = exec stack env tr (new_TxtReader h) in
     \<forall>t<length (taskList w).
       settle_count stack env t tr (new_TxtReader h) =
         (if state (taskList w ! t) = Completed then 1 else 0) \<and>
       (settled (promiseObject (taskList w ! t)) = Pending) =
         (state (taskList w ! t) \<noteq> Completed) \<and>
       (settled (promiseObject (taskList w ! t)) \<noteq> Pending \<longrightarrow>
          (\<forall>tr'. settled (promiseObject (taskList (exec stack env tr' w) ! t)) =
                  settled (promiseObject (taskList w ! t)) \<and>
                settle_count stack env t tr' w = 0) \<and>
          step stack env (now, Then t k) w = w \<and>
          step stack env (now, Catch t k) w = w) \<and>
       (settled (promiseObject (taskList w ! t)) = Pending \<longrightarrow>
          fulfilReactions (promiseObject (taskList (step stack env (now, Then t k) w) ! t)) =
            fulfilReactions (promiseObject (taskList w ! t)) @ [UserCallback k] \<and>
          rejectReactions (promiseObject (taskList (step stack env (now, Catch t k) w) ! t)) =
            rejectReactions (promiseObject (taskList w ! t)) @ [UserCallback k]) \<and>
       (runningTask w = Some t \<and> resp_taskId response = tid (taskList w ! t) \<and>
        resp_done response \<longrightarrow>
          observed (step stack env (now, Message response) w) =
            observed w @
              (if resp_success response
               then notify env t \<lparr>timeTaken = now - startTime (taskList w ! t),
                           message = resp_message response, result = resp_result response\<rparr>
                      (fulfilReactions (promiseObject (taskList w ! t)))
               else map (\<lambda>cb. OnFailed t cb (resp_message response))
                      (rejectReactions (promiseObject (taskList w ! t)))) \<and>
          settled (promiseObject (taskList (step stack env (now, Message response) w) ! t)) =
            (if resp_success response
             then Fulfilled (foldl (after_observer env)
                    \<lparr>timeTaken = now - startTime (taskList w ! t),
                      message = resp_message response, result = resp_result response\<rparr>
                    (fulfilReactions (promiseObject (taskList w ! t))))
             else Rejected (resp_message response)) \<and>
          settle_count stack env t (tr @ [(now, Message response)]) (new_TxtReader h) = 1) \<and>
       (\<forall>cb n. OnProgress t cb n \<in>
                  set (drop (length (observed w)) (observed (step stack env e w))) \<longrightarrow>
          runningTask w = Some t \<and> settled (promiseObject (taskList w ! t)) = Pending)"
proof -
  let ?w = "exec stack env tr (new_TxtReader h)"
  have I: "reader_inv ?w" by (rule reachable_inv)
  then have S: "sched_inv ?w" by (simp add: reader_inv_def)
  have J: "jobs ?w = []" by (rule reachable_jobs)
  show ?thesis
    unfolding Let_def
  proof (intro allI impI conjI)
    fix t assume t: "t < length (taskList ?w)"
    note T = task_inv_states(7) [OF sched_inv_task [OF S t]]
    show "settle_count stack env t tr (new_TxtReader h) =
         (if state (taskList ?w ! t) = Completed then 1 else 0)"
      using T t by (simp add: settle_count_run outcome_at_def)
    show "(settled (promiseObject (taskList ?w ! t)) = Pending) =
         (state (taskList ?w ! t) \<noteq> Completed)"
      using T by simp
  next
    fix t tr' assume t: "t < length (taskList ?w)"
      and s: "settled (promiseObject (taskList ?w ! t)) \<noteq> Pending"
    from exec_keeps [OF I J t, of stack env tr'] s
    show "settled (promiseObject (taskList (exec stack env tr' ?w) ! t)) =
          settled (promiseObject (taskList ?w ! t))"
      by (simp add: keeps_def)
    from s t have "outcome_at ?w t \<noteq> Pending" by (simp add: outcome_at_def)
    then show "settle_count stack env t tr' ?w = 0"
      by (rule settle_count_settled [OF I J])
  next
    fix t assume t: "t < length (taskList ?w)"
      and s: "settled (promiseObject (taskList ?w ! t)) \<noteq> Pending"
    show "step stack env (now, Then t k) ?w = ?w"
      by (rule settled_then_noop(1) [OF I J t s])
    show "step stack env (now, Catch t k) ?w = ?w"
      by (rule settled_then_noop(2) [OF I J t s])
  next
    fix t assume t: "t < length (taskList ?w)"
      and s: "settled (promiseObject (taskList ?w ! t)) = Pending"
    show "fulfilReactions (promiseObject (taskList (step stack env (now, Then t k) ?w) ! t)) =
            fulfilReactions (promiseObject (taskList ?w ! t)) @ [UserCallback k]"
      by (rule pending_then_registers(1) [OF I t s])
    show "rejectReactions (promiseObject (taskList (step stack env (now, Catch t k) ?w) ! t)) =
            rejectReactions (promiseObject (taskList ?w ! t)) @ [UserCallback k]"
      by (rule pending_then_registers(2) [OF I t s])
  next
    fix t assume t: "t < length (taskList ?w)"
      and "runningTask ?w = Some t \<and> resp_taskId response = tid (taskList ?w ! t) \<and>
        resp_done response"
    then have r: "runningTask ?w = Some t" and m: "resp_taskId response = tid (taskList ?w ! t)"
      "resp_done response" by simp_all
    show "observed (step stack env (now, Message response) ?w) =
            observed ?w @
              (if resp_success response
               then notify env t \<lparr>timeTaken = now - startTime (taskList ?w ! t),
                           message = resp_message response, result = resp_result response\<rparr>
                      (fulfilReactions (promiseObject (taskList ?w ! t)))
               else map (\<lambda>cb. OnFailed t cb (resp_message response))
                      (rejectReactions (promiseObject (taskList ?w ! t))))"
      by (rule settlement_notifies(1) [OF I J r m])
    show F: "settled (promiseObject (taskList (step stack env (now, Message response) ?w) ! t)) =
            (if resp_success response
             then Fulfilled (foldl (after_observer env)
                    \<lparr>timeTaken = now - startTime (taskList ?w ! t),
                      message = resp_message response, result = resp_result response\<rparr>
                    (fulfilReactions (promiseObject (taskList ?w ! t))))
             else Rejected (resp_message response))"
      by (rule settlement_notifies(2) [OF I J r m])
    have "t < length (taskList (step stack env (now, Message response) ?w))"
      using step_keeps [OF I J t, of stack env "(now, Message response)"] by (simp add: keeps_def)
    with F have "outcome_at (exec stack env (tr @ [(now, Message response)]) (new_TxtReader h)) t
        \<noteq> Pending"
      by (simp add: exec_append outcome_at_def)
    then show "settle_count stack env t (tr @ [(now, Message response)]) (new_TxtReader h) = 1"
      by (simp add: settle_count_run)
  next
    fix t cb n
    assume "OnProgress t cb n \<in> set (drop (length (observed ?w)) (observed (step stack env e ?w)))"
    with step_observed [OF I, of stack env e]
    show r: "runningTask ?w = Some t" by blast
    show "settled (promiseObject (taskList ?w ! t)) = Pending"
      by (rule sched_inv_running(6) [OF S r])
  qed
qed

text \<open>
  A task is fulfilled, then a \<^verbatim>\<open>then\<close> observer is registered; another task is rejected, then a
  \<^verbatim>\<open>catch\<close> observer is registered. Neither registration changes anything, and no observer has
  been called: the late observer does not receive the outcome.
\<close>

theorem late_observer_counterexample:
  "settled (promiseObject (taskList (exec 0 sample_env settled_run (new_TxtReader [])) ! 0)) =
     Fulfilled \<lparr>timeTaken = 2, message = ''ok'',
                 result = MObj [(''lineCount'', MNum (Finite 4))]\<rparr> \<and>
   exec 0 sample_env (settled_run @ [(4, Then 0 7)]) (new_TxtReader []) =
     exec 0 sample_env settled_run (new_TxtReader []) \<and>
   observed (exec 0 sample_env (settled_run @ [(4, Then 0 7)]) (new_TxtReader [])) = [] \<and>
   jobs (exec 0 sample_env (settled_run @ [(4, Then 0 7)]) (new_TxtReader [])) = [] \<and>
   settled (promiseObject (taskList (exec 0 sample_env
       [(1, Call (GetLines (Finite 0) (Finite 1) True)), (2, Timeout)] (new_TxtReader [])) ! 0)) =
     Rejected ''TxtReader has not loaded a file yet.'' \<and>
   exec 0 sample_env [(1, Call (GetLines (Finite 0) (Finite 1) True)), (2, Timeout), (3, Catch 0 8)]
       (new_TxtReader []) =
     exec 0 sample_env [(1, Call (GetLines (Finite 0) (Finite 1) True)), (2, Timeout)]
       (new_TxtReader []) \<and>
   observed (exec 0 sample_env
       [(1, Call (GetLines (Finite 0) (Finite 1) True)), (2, Timeout), (3, Catch 0 8)]
       (new_TxtReader [])) = []"
  by code_simp

theorem settle_once_observers_witness:
  "length (taskList (exec 0 sample_env lines_run (new_TxtReader []))) = 2 \<and>
   runningTask (exec 0 sample_env lines_run (new_TxtReader [])) = Some 1 \<and>
   settle_count 0 sample_env 0 lines_run (new_TxtReader []) = 1 \<and>
   settle_count 0 sample_env 1 lines_run (new_TxtReader []) = 0 \<and>
   settle_count 0 sample_env 1 (lines_run @ [(7, Message reply2)]) (new_TxtReader []) = 1 \<and>
   step 0 sample_env (7, Then 0 5) (exec 0 sample_env lines_run (new_TxtReader [])) =
     exec 0 sample_env lines_run (new_TxtReader []) \<and>
   drop 1 (observed (step 0 sample_env (7, Message reply2)
       (exec 0 sample_env lines_run (new_TxtReader [])))) =
     [OnFulfilled 1 (GetLinesThen True)
        \<lparr>timeTaken = 4, message = ''ok'', result = MArr [MBytes [104, 105], MBytes [33]]\<rparr>,
      OnFulfilled 1 (UserCallback 7)
        \<lparr>timeTaken = 4, message = ''ok'', result = MArr [MStr ''hi'', MStr ''!'']\<rparr>] \<and>
   settled (promiseObject (taskList (step 0 sample_env (7, Message reply2)
       (exec 0 sample_env lines_run (new_TxtReader []))) ! 1)) =
     Fulfilled \<lparr>timeTaken = 4, message = ''ok'', result = MArr [MStr ''hi'', MStr ''!'']\<rparr>"
proof -
  let ?w = "exec 0 sample_env lines_run (new_TxtReader [])"
  have f: "length (taskList ?w) = 2" "runningTask ?w = Some 1" "tid (taskList ?w ! 1) = 2"
    "startTime (taskList ?w ! 1) = 3" "length (observed ?w) = 1"
    "fulfilReactions (promiseObject (taskList ?w ! 1)) = [GetLinesThen True, UserCallback 7]"
    "state (taskList ?w ! 0) = Completed" "state (taskList ?w ! 1) = Running"
    by code_simp+
  have m: "resp_taskId reply2 = 2" "resp_done reply2" "resp_success reply2"
    "resp_message reply2 = ''ok''" "resp_result reply2 = MArr [MBytes [104, 105], MBytes [33]]"
    by (simp_all add: reply2_def)
  have d: "decode_lines sample_env True (MArr [MBytes [104, 105], MBytes [33]]) =
      MArr [MStr ''hi'', MStr ''!'']"
    by code_simp
  note A = settle_once_observers [of 0 sample_env lines_run "[]" 7 5 reply2 "(7, Timeout)",
      unfolded Let_def, rule_format, of 0]
  note B = settle_once_observers [of 0 sample_env lines_run "[]" 7 5 reply2 "(7, Timeout)",
      unfolded Let_def, rule_format, of 1]
  from A f have a: "settle_count 0 sample_env 0 lines_run (new_TxtReader []) = 1"
    "step 0 sample_env (7, Then 0 5) ?w = ?w"
    by simp_all
  from B f m have b: "settle_count 0 sample_env 1 lines_run (new_TxtReader []) = 0"
    "settle_count 0 sample_env 1 (lines_run @ [(7, Message reply2)]) (new_TxtReader []) = 1"
    "observed (step 0 sample_env (7, Message reply2) ?w) =
       observed ?w @ notify sample_env 1
         \<lparr>timeTaken = 7 - 3, message = ''ok'', result = MArr [MBytes [104, 105], MBytes [33]]\<rparr>
         [GetLinesThen True, UserCallback 7]"
    "settled (promiseObject (taskList (step 0 sample_env (7, Message reply2) ?w) ! 1)) =
       Fulfilled (foldl (after_observer sample_env)
         \<lparr>timeTaken = 7 - 3, message = ''ok'', result = MArr [MBytes [104, 105], MBytes [33]]\<rparr>
         [GetLinesThen True, UserCallback 7])"
    by simp_all
  from b(3) f(5) d have c: "drop 1 (observed (step 0 sample_env (7, Message reply2) ?w)) =
     [OnFulfilled 1 (GetLinesThen True)
        \<lparr>timeTaken = 4, message = ''ok'', result = MArr [MBytes [104, 105], MBytes [33]]\<rparr>,
      OnFulfilled 1 (UserCallback 7)
        \<lparr>timeTaken = 4, message = ''ok'', result = MArr [MStr ''hi'', MStr ''!'']\<rparr>]"
    by (simp add: after_observer_def)
  from b(4) d have e: "settled (promiseObject (taskList (step 0 sample_env (7, Message reply2) ?w) ! 1)) =
     Fulfilled \<lparr>timeTaken = 4, message = ''ok'', result = MArr [MStr ''hi'', MStr ''!'']\<rparr>"
    by (simp add: after_observer_def)
  from a b(1,2) c e f(1,2) show ?thesis by simp
qed






end
